theory Spec2Isabelle
  imports Main "HOL-Library.Word" "HOL-Library.Multiset"
begin

section \<open>Items and their ordering\<close>

text \<open>
  \<^verbatim>\<open>type Item struct { Path string; Size int64; IsSelected bool }\<close>.
  \<open>Size\<close> is a 64-bit machine integer: additions wrap, comparisons are signed.
\<close>

record Item =
  Path :: string
  Size :: "64 word"
  IsSelected :: bool

type_synonym Items = "Item list"

text \<open>\<^verbatim>\<open>func (i Items) Less(j, k int) bool { return i[j].Size > i[k].Size }\<close>\<close>

definition Less :: "Items \<Rightarrow> nat \<Rightarrow> nat \<Rightarrow> bool" where
  "Less i j k = (Size (i ! k) <s Size (i ! j))"

text \<open>
  \<open>sort.Sort\<close> belongs to the Go standard library. Its documented contract is all the
  program relies on: the result is a rearrangement of the input in which no later
  element is \<open>Less\<close> than an earlier one; stability is not promised. The scanner is
  therefore parameterised by the sorting function, and \<open>sort_contract\<close> states the contract.
\<close>

definition sort_contract :: "(Items \<Rightarrow> Items) \<Rightarrow> bool" where
  "sort_contract srt =
     (\<forall>xs. mset (srt xs) = mset xs \<and>
           (\<forall>a b. a < b \<and> b < length (srt xs) \<longrightarrow> \<not> Less (srt xs) b a))"

text \<open>One executable function that meets the contract (insertion by descending signed size).\<close>

definition sort_desc :: "Items \<Rightarrow> Items" where
  "sort_desc xs = sort_key (\<lambda>it. - sint (Size it)) xs"

section \<open>Paths\<close>

text \<open>\<open>strings.HasPrefix\<close>.\<close>

definition HasPrefix :: "string \<Rightarrow> string \<Rightarrow> bool" where
  "HasPrefix s p = (length p \<le> length s \<and> take (length p) s = p)"

text \<open>
  \<open>filepath.Base\<close> (Unix): the empty path gives \<open>.\<close>; trailing slashes are stripped;
  the last element is returned; a path of slashes only gives \<open>/\<close>.
\<close>

definition strip_trailing :: "string \<Rightarrow> string" where
  "strip_trailing p = rev (dropWhile (\<lambda>c. c = CHR ''/'') (rev p))"

definition last_element :: "string \<Rightarrow> string" where
  "last_element p = rev (takeWhile (\<lambda>c. c \<noteq> CHR ''/'') (rev p))"

definition Base :: "string \<Rightarrow> string" where
  "Base path =
     (if path = [] then ''.''
      else let p = last_element (strip_trailing path)
           in if p = [] then ''/'' else p)"

text \<open>
  \<open>filepath.Clean\<close> (Unix), the lexical normalisation of the standard library. The path is
  read element by element: an empty element and \<open>.\<close> are dropped; \<open>..\<close> removes the element
  before it when there is one that is not itself \<open>..\<close>, is dropped at the root of a rooted
  path, and is kept otherwise; any other element is kept. The elements kept are written
  with single separators, after the leading separator of a rooted path; nothing kept gives
  \<open>/\<close> for a rooted path and \<open>.\<close> otherwise.
\<close>

fun split_sep :: "string \<Rightarrow> string list" where
  "split_sep [] = [[]]"
| "split_sep (c # cs) =
     (if c = CHR ''/'' then [] # split_sep cs
      else (case split_sep cs of [] \<Rightarrow> [[c]] | x # xs \<Rightarrow> (c # x) # xs))"

definition rooted :: "string \<Rightarrow> bool" where
  "rooted path = (path \<noteq> [] \<and> hd path = CHR ''/'')"

definition clean_step :: "bool \<Rightarrow> string list \<Rightarrow> string \<Rightarrow> string list" where
  "clean_step r out elem =
     (if elem = [] \<or> elem = ''.'' then out
      else if elem = ''..'' then
        (if out \<noteq> [] \<and> last out \<noteq> ''..'' then butlast out
         else if r then out
         else out @ [''..''])
      else out @ [elem])"

definition clean_elems :: "string \<Rightarrow> string list" where
  "clean_elems path = foldl (clean_step (rooted path)) [] (split_sep path)"

definition ipath :: "string list \<Rightarrow> string" where
  "ipath ns = concat (map (\<lambda>m. CHR ''/'' # m) ns)"

definition render :: "bool \<Rightarrow> string list \<Rightarrow> string" where
  "render r out =
     (if out = [] then (if r then ''/'' else ''.'')
      else if r then ipath out else tl (ipath out))"

definition Clean :: "string \<Rightarrow> string" where
  "Clean path = render (rooted path) (clean_elems path)"

text \<open>
  \<open>filepath.Join\<close> of two elements: leading empty elements are ignored, the rest is joined
  with a separator and cleaned; nothing left gives the empty string.
\<close>

definition Join :: "string \<Rightarrow> string \<Rightarrow> string" where
  "Join dir name =
     (if dir \<noteq> [] then Clean (dir @ ''/'' @ name)
      else if name \<noteq> [] then Clean name
      else [])"

text \<open>
  \<open>filepath.Dir\<close>: the path up to its last separator, cleaned (named \<open>Dir_path\<close> here;
  \<open>Dir\<close> is a directory of the snapshot below).
\<close>

definition Dir_path :: "string \<Rightarrow> string" where
  "Dir_path path = Clean (rev (dropWhile (\<lambda>c. c \<noteq> CHR ''/'') (rev path)))"

section \<open>The filesystem seen by the scanner\<close>

text \<open>
  A snapshot of the tree under the scanned root, as \<open>os.Lstat\<close> and the directory
  listing report it: a non-directory entry with its \<open>Size()\<close>, a directory with its
  (name, entry) listing in the order \<open>readDirNames\<close> returns it, a directory whose
  listing fails, and an entry whose \<open>Lstat\<close> fails. The snapshot does not change while
  the scan runs.
\<close>

datatype fsnode =
    File "64 word"
  | Dir "(string \<times> fsnode) list"
  | DirUnreadable
  | LstatFails

datatype go_error = PathError string string

datatype walk_ret = RetNil | SkipDir | RetErr go_error

fun IsDir :: "fsnode \<Rightarrow> bool" where
  "IsDir (Dir _) = True"
| "IsDir DirUnreadable = True"
| "IsDir _ = False"

fun FileSize :: "fsnode \<Rightarrow> 64 word" where
  "FileSize (File sz) = sz"
| "FileSize _ = 0"

text \<open>
  \<open>filepath.Walk\<close> and its helper \<open>walk\<close> from the standard library. The callback
  receives the path, the entry (standing for its \<open>FileInfo\<close>; \<open>LstatFails\<close> stands for a
  nil info), the error, and the variables its closure captured, which it returns updated.

  \<^item> \<open>walk\<close> on a non-directory calls the callback and returns its result.
  \<^item> On a directory it lists the names, calls the callback with the listing error, and
    returns the callback's result if either is not nil; otherwise it visits the names.
  \<^item> For a name whose \<open>Lstat\<close> fails the callback is called with the error, and only an
    error other than \<open>SkipDir\<close> stops the loop.
  \<^item> For the others \<open>walk\<close> recurses; a result other than nil stops the loop, except
    \<open>SkipDir\<close> from a directory.
  \<^item> \<open>Walk\<close> turns a final \<open>SkipDir\<close> into nil.
\<close>

type_synonym 's walk_fn = "string \<Rightarrow> fsnode \<Rightarrow> go_error option \<Rightarrow> 's \<Rightarrow> walk_ret \<times> 's"

function (sequential) walk :: "'s walk_fn \<Rightarrow> string \<Rightarrow> fsnode \<Rightarrow> 's \<Rightarrow> walk_ret \<times> 's"
  and walk_names :: "'s walk_fn \<Rightarrow> string \<Rightarrow> (string \<times> fsnode) list \<Rightarrow> 's \<Rightarrow> walk_ret \<times> 's"
where
  "walk fn path (Dir ents) s =
     (case fn path (Dir ents) None s of
        (RetNil, s') \<Rightarrow> walk_names fn path ents s'
      | (r, s') \<Rightarrow> (r, s'))"
| "walk fn path DirUnreadable s = fn path DirUnreadable (Some (PathError ''open'' path)) s"
| "walk fn path (File sz) s = fn path (File sz) None s"
| "walk fn path LstatFails s = fn path LstatFails (Some (PathError ''lstat'' path)) s"
| "walk_names fn path [] s = (RetNil, s)"
| "walk_names fn path ((name, node) # rest) s =
     (let filename = Join path name in
      if node = LstatFails then
        (case fn filename LstatFails (Some (PathError ''lstat'' filename)) s of
           (RetErr e, s') \<Rightarrow> (RetErr e, s')
         | (_, s') \<Rightarrow> walk_names fn path rest s')
      else
        (case walk fn filename node s of
           (RetNil, s') \<Rightarrow> walk_names fn path rest s'
         | (SkipDir, s') \<Rightarrow> if IsDir node then walk_names fn path rest s' else (SkipDir, s')
         | (RetErr e, s') \<Rightarrow> (RetErr e, s')))"
  by pat_completeness auto
termination
  by (relation "measure (\<lambda>x. case x of
         Inl (fn, path, node, s) \<Rightarrow> size node
       | Inr (fn, path, ents, s) \<Rightarrow> size_list (size_prod (\<lambda>n. 0) size) ents)") auto

definition Walk :: "'s walk_fn \<Rightarrow> string \<Rightarrow> fsnode \<Rightarrow> 's \<Rightarrow> go_error option \<times> 's" where
  "Walk fn root node s =
     (case (if node = LstatFails
            then fn root LstatFails (Some (PathError ''lstat'' root)) s
            else walk fn root node s) of
        (RetErr e, s') \<Rightarrow> (Some e, s')
      | (_, s') \<Rightarrow> (None, s'))"

section \<open>The scanner\<close>

text \<open>
  \<open>getDirSize\<close>: the callback returns any error it is handed, and adds the size of every
  entry that is not a directory. The captured variable is \<open>size\<close>.
\<close>

definition getDirSize_fn :: "(64 word) walk_fn" where
  "getDirSize_fn p info err sz =
     (case err of
        Some e \<Rightarrow> (RetErr e, sz)
      | None \<Rightarrow> if \<not> IsDir info then (RetNil, sz + FileSize info) else (RetNil, sz))"

definition getDirSize :: "string \<Rightarrow> fsnode \<Rightarrow> 64 word \<times> go_error option" where
  "getDirSize path node = (case Walk getDirSize_fn path node 0 of (err, sz) \<Rightarrow> (sz, err))"

text \<open>
  \<open>scanDirectory\<close>: the callback's captured variables are \<open>files\<close> and \<open>folders\<close>. The
  snapshot being static, \<open>getDirSize(path)\<close> walks the very directory the callback is
  visiting, so the model hands it that entry.
\<close>

definition scan_fn :: "(Items \<times> Items) walk_fn" where
  "scan_fn path info err st =
     (case st of (files, folders) \<Rightarrow>
        if err \<noteq> None then (RetNil, st)
        else if HasPrefix (Base path) ''.'' then
          (if IsDir info then (SkipDir, st) else (RetNil, st))
        else if IsDir info then
          (case getDirSize path info of
             (sz, Some e) \<Rightarrow> (RetNil, st)
           | (sz, None) \<Rightarrow>
               (RetNil, (files, folders @ [\<lparr>Path = path, Size = sz, IsSelected = False\<rparr>])))
        else (RetNil, (files @ [\<lparr>Path = path, Size = FileSize info, IsSelected = False\<rparr>], folders)))"

definition scanDirectory ::
  "(Items \<Rightarrow> Items) \<Rightarrow> string \<Rightarrow> fsnode \<Rightarrow> Items \<times> Items \<times> go_error option" where
  "scanDirectory srt path node =
     (case Walk scan_fn path node ([], []) of
        (err, (files, folders)) \<Rightarrow> (srt files, srt folders, err))"

section \<open>The interactive session\<close>

text \<open>
  The repository holds two revisions of the program. They agree on the scanner and on almost
  all of the session; where they differ (the toggle-select handler, the stored width and base
  path) the model takes the revision as an argument.
\<close>

datatype revision = main_go | part_000

text \<open>
  Go's \<open>int\<close> is a 64-bit two's-complement integer on the platforms the program targets.
  The fields and messages hold integers in that range, and every addition and subtraction
  of the program is followed by \<open>wrap\<close>, which brings the exact result back into the
  range as the machine does.
\<close>

definition wrap :: "int \<Rightarrow> int" where
  "wrap k = signed_take_bit 63 k"

text \<open>The \<open>model\<close> struct. The \<open>styles\<close> field is constant and left out.\<close>

record model =
  files :: Items
  folders :: Items
  cursor :: int
  viewMode :: string
  confirming :: bool
  err :: "go_error option"
  windowSize :: "int \<times> int"
  offset :: int
  height :: int
  width :: int
  basePath :: string

datatype msg = KeyMsg string | WindowSizeMsg int int | OtherMsg

datatype cmd = NoCmd | Quit

text \<open>A run-time panic: an index outside \<open>0 \<le> i < len\<close>, or slice bounds out of range.\<close>

datatype panic = IndexOutOfRange int nat | SliceOutOfRange int int nat

text \<open>
  \<open>initialModel\<close>: the model built from the scan's result. \<open>part_000\<close> first makes the path
  absolute with \<open>filepath.Abs\<close>, whose outcome is an argument here, and stores it.
\<close>

definition initial :: "revision \<Rightarrow> Items \<Rightarrow> Items \<Rightarrow> string \<Rightarrow> model" where
  "initial rv fs ds absPath =
     \<lparr>files = fs, folders = ds, cursor = 0, viewMode = ''files'', confirming = False,
      err = None, windowSize = (0, 0), offset = 0, height = 10,
      width = (if rv = part_000 then 100 else 0),
      basePath = (if rv = part_000 then absPath else [])\<rparr>"

definition initialModel ::
  "revision \<Rightarrow> (Items \<Rightarrow> Items) \<Rightarrow> (string \<Rightarrow> go_error + string) \<Rightarrow> string \<Rightarrow> fsnode
     \<Rightarrow> go_error + model" where
  "initialModel rv srt Abs path node =
     (case (if rv = part_000 then Abs path else Inr path) of
        Inl e \<Rightarrow> Inl e
      | Inr absPath \<Rightarrow>
          (case scanDirectory srt absPath node of
             (fs, ds, Some e) \<Rightarrow> Inl e
           | (fs, ds, None) \<Rightarrow> Inr (initial rv fs ds absPath)))"

text \<open>The active collection: \<^verbatim>\<open>items := m.files; if m.viewMode == "folders" { items = m.folders }\<close>.\<close>

definition items_of :: "model \<Rightarrow> Items" where
  "items_of m = (if viewMode m = ''folders'' then folders m else files m)"

text \<open>The key handlers of \<open>Update\<close>, one definition per case of the switch.\<close>

definition key_up :: "model \<Rightarrow> model" where
  "key_up m =
     (if cursor m > 0 then
        (let m1 = m\<lparr>cursor := wrap (cursor m - 1)\<rparr>
         in if cursor m1 < offset m1 then m1\<lparr>offset := cursor m1\<rparr> else m1)
      else m)"

definition key_down :: "model \<Rightarrow> model" where
  "key_down m =
     (if cursor m < wrap (int (length (items_of m)) - 1) then
        (let m1 = m\<lparr>cursor := wrap (cursor m + 1)\<rparr>
         in if cursor m1 \<ge> wrap (wrap (offset m1 + height m1) - 4)
            then m1\<lparr>offset := wrap (wrap (cursor m1 - height m1) + 5)\<rparr> else m1)
      else m)"

definition key_pageup :: "model \<Rightarrow> model" where
  "key_pageup m =
     (let m1 = m\<lparr>offset := wrap (offset m - wrap (height m - 4))\<rparr>;
          m2 = (if offset m1 < 0 then m1\<lparr>offset := 0\<rparr> else m1);
          m3 = m2\<lparr>cursor := wrap (cursor m2 - wrap (height m2 - 4))\<rparr>
      in if cursor m3 < 0 then m3\<lparr>cursor := 0\<rparr> else m3)"

definition key_pagedown :: "model \<Rightarrow> model" where
  "key_pagedown m =
     (let items = items_of m;
          m1 = m\<lparr>offset := wrap (offset m + wrap (height m - 4))\<rparr>;
          maxOffset = wrap (int (length items) - wrap (height m1 - 4));
          m2 = (if offset m1 > maxOffset then m1\<lparr>offset := maxOffset\<rparr> else m1);
          m3 = (if offset m2 < 0 then m2\<lparr>offset := 0\<rparr> else m2);
          m4 = m3\<lparr>cursor := wrap (cursor m3 + wrap (height m3 - 4))\<rparr>
      in if cursor m4 \<ge> int (length items)
         then m4\<lparr>cursor := wrap (int (length items) - 1)\<rparr> else m4)"

definition key_home :: "model \<Rightarrow> model" where
  "key_home m = m\<lparr>cursor := 0, offset := 0\<rparr>"

definition key_end :: "model \<Rightarrow> model" where
  "key_end m =
     (let items = items_of m;
          m1 = m\<lparr>cursor := wrap (int (length items) - 1),
                 offset := wrap (int (length items) - wrap (height m - 4))\<rparr>
      in if offset m1 < 0 then m1\<lparr>offset := 0\<rparr> else m1)"

text \<open>
  The map literal indexed by \<open>m.viewMode\<close>; a key that is not in the map gives the empty
  string.
\<close>

definition key_tab :: "model \<Rightarrow> model" where
  "key_tab m =
     m\<lparr>viewMode := (if viewMode m = ''files'' then ''folders''
                     else if viewMode m = ''folders'' then ''files'' else []),
       cursor := 0, offset := 0\<rparr>"

text \<open>
  \<^verbatim>\<open>xs[i].IsSelected = !xs[i].IsSelected\<close>: the index expression panics outside the slice.
\<close>

definition toggle_at :: "Items \<Rightarrow> int \<Rightarrow> panic + Items" where
  "toggle_at xs i =
     (if 0 \<le> i \<and> i < int (length xs)
      then Inr (xs[nat i := (xs ! nat i)\<lparr>IsSelected := \<not> IsSelected (xs ! nat i)\<rparr>])
      else Inl (IndexOutOfRange i (length xs)))"

definition toggle_files :: "model \<Rightarrow> panic + model" where
  "toggle_files m =
     (case toggle_at (files m) (cursor m) of Inl p \<Rightarrow> Inl p | Inr xs \<Rightarrow> Inr (m\<lparr>files := xs\<rparr>))"

definition toggle_folders :: "model \<Rightarrow> panic + model" where
  "toggle_folders m =
     (case toggle_at (folders m) (cursor m) of Inl p \<Rightarrow> Inl p | Inr xs \<Rightarrow> Inr (m\<lparr>folders := xs\<rparr>))"

definition key_space :: "revision \<Rightarrow> model \<Rightarrow> panic + model" where
  "key_space rv m =
     (case rv of
        main_go \<Rightarrow>
          (let items = items_of m
           in if length items > 0 \<and> cursor m < int (length items) then
                (if viewMode m = ''files'' then toggle_files m else toggle_folders m)
              else Inr m)
      | part_000 \<Rightarrow>
          (if viewMode m = ''files'' \<and> cursor m < int (length (files m)) then toggle_files m
           else if viewMode m = ''folders'' \<and> cursor m < int (length (folders m))
           then toggle_folders m
           else Inr m))"

text \<open>
  \<open>os.Remove\<close> acts on the world outside the program. The session is parameterised by it:
  a function from a path and the state of that world to the error, if any, and the new
  state.
\<close>

type_synonym 'w remove = "string \<Rightarrow> 'w \<Rightarrow> go_error option \<times> 'w"

text \<open>
  The loop of the confirm-delete handler over the active collection. It returns the
  collection as the loop leaves it, the error assigned to \<open>m.err\<close> (if any), and the world.
\<close>

fun delete_loop :: "'w remove \<Rightarrow> Items \<Rightarrow> 'w \<Rightarrow> Items \<times> go_error option \<times> 'w" where
  "delete_loop rm [] w = ([], None, w)"
| "delete_loop rm (item # rest) w =
     (if IsSelected item then
        (case rm (Path item) w of
           (Some e, w') \<Rightarrow> (item # rest, Some e, w')
         | (None, w') \<Rightarrow>
             (case delete_loop rm rest w' of
                (rest', e, w'') \<Rightarrow> (item\<lparr>IsSelected := False\<rparr> # rest', e, w'')))
      else
        (case delete_loop rm rest w of (rest', e, w'') \<Rightarrow> (item # rest', e, w'')))"

definition key_y :: "'w remove \<Rightarrow> model \<Rightarrow> 'w \<Rightarrow> model \<times> 'w" where
  "key_y rm m w =
     (if confirming m then
        (case delete_loop rm (items_of m) w of
           (items', e, w') \<Rightarrow>
             (let m1 = (if viewMode m = ''folders'' then m\<lparr>folders := items'\<rparr>
                        else m\<lparr>files := items'\<rparr>);
                  m2 = (case e of Some x \<Rightarrow> m1\<lparr>err := Some x\<rparr> | None \<Rightarrow> m1)
              in (m2\<lparr>confirming := False\<rparr>, w')))
      else (m, w))"

definition key_n :: "model \<Rightarrow> model" where
  "key_n m = (if confirming m then m\<lparr>confirming := False\<rparr> else m)"

definition resize :: "revision \<Rightarrow> int \<Rightarrow> int \<Rightarrow> model \<Rightarrow> model" where
  "resize rv wd ht m =
     (let m1 = m\<lparr>windowSize := (wd, ht), height := ht\<rparr>
      in if rv = part_000 then m1\<lparr>width := wd\<rparr> else m1)"

text \<open>
  \<open>Update\<close> switches on \<open>msg.String()\<close>; \<open>key_of\<close> names the case of the switch a key string
  selects (the first that matches, \<open>KOther\<close> when none does).
\<close>

datatype key =
  KQuit | KUp | KDown | KPageUp | KPageDown | KHome | KEnd | KTab | KSpace | KD | KY | KN | KOther

definition key_of :: "string \<Rightarrow> key" where
  "key_of k =
     (if k = ''ctrl+c'' \<or> k = ''q'' then KQuit
      else if k = ''up'' \<or> k = ''k'' then KUp
      else if k = ''down'' \<or> k = ''j'' then KDown
      else if k = ''pageup'' then KPageUp
      else if k = ''pagedown'' then KPageDown
      else if k = ''home'' then KHome
      else if k = ''end'' then KEnd
      else if k = ''tab'' then KTab
      else if k = '' '' then KSpace
      else if k = ''d'' then KD
      else if k = ''y'' then KY
      else if k = ''n'' then KN
      else KOther)"

fun handle_key ::
  "revision \<Rightarrow> 'w remove \<Rightarrow> key \<Rightarrow> model \<Rightarrow> 'w \<Rightarrow> panic + (model \<times> cmd \<times> 'w)" where
  "handle_key rv rm KQuit m w = Inr (m, Quit, w)"
| "handle_key rv rm KUp m w = Inr (key_up m, NoCmd, w)"
| "handle_key rv rm KDown m w = Inr (key_down m, NoCmd, w)"
| "handle_key rv rm KPageUp m w = Inr (key_pageup m, NoCmd, w)"
| "handle_key rv rm KPageDown m w = Inr (key_pagedown m, NoCmd, w)"
| "handle_key rv rm KHome m w = Inr (key_home m, NoCmd, w)"
| "handle_key rv rm KEnd m w = Inr (key_end m, NoCmd, w)"
| "handle_key rv rm KTab m w = Inr (key_tab m, NoCmd, w)"
| "handle_key rv rm KSpace m w =
     (case key_space rv m of Inl p \<Rightarrow> Inl p | Inr m' \<Rightarrow> Inr (m', NoCmd, w))"
| "handle_key rv rm KD m w = Inr (m\<lparr>confirming := True\<rparr>, NoCmd, w)"
| "handle_key rv rm KY m w = (case key_y rm m w of (m', w') \<Rightarrow> Inr (m', NoCmd, w'))"
| "handle_key rv rm KN m w = Inr (key_n m, NoCmd, w)"
| "handle_key rv rm KOther m w = Inr (m, NoCmd, w)"

fun Update ::
  "revision \<Rightarrow> 'w remove \<Rightarrow> msg \<Rightarrow> model \<Rightarrow> 'w \<Rightarrow> panic + (model \<times> cmd \<times> 'w)" where
  "Update rv rm (KeyMsg k) m w = handle_key rv rm (key_of k) m w"
| "Update rv rm (WindowSizeMsg wd ht) m w = Inr (resize rv wd ht m, NoCmd, w)"
| "Update rv rm OtherMsg m w = Inr (m, NoCmd, w)"

text \<open>
  The event loop of the terminal runtime: each message goes through \<open>Update\<close>; the loop
  ends at \<open>Quit\<close>, and a panic ends the program.
\<close>

fun run ::
  "revision \<Rightarrow> 'w remove \<Rightarrow> msg list \<Rightarrow> model \<Rightarrow> 'w \<Rightarrow> panic + (model \<times> cmd \<times> 'w)" where
  "run rv rm [] m w = Inr (m, NoCmd, w)"
| "run rv rm (e # es) m w =
     (case Update rv rm e m w of
        Inl p \<Rightarrow> Inl p
      | Inr (m', Quit, w') \<Rightarrow> Inr (m', Quit, w')
      | Inr (m', NoCmd, w') \<Rightarrow> run rv rm es m' w')"

text \<open>
  The helpers of \<open>View\<close>. A slice expression panics unless \<open>0 \<le> lo \<le> hi \<le> len\<close>;
  \<open>truncateString\<close> and \<open>truncateFromStart\<close> slice without a check of their own, so they
  panic for a \<open>maxLen\<close> that makes the bound negative. \<open>filepath.Rel\<close> is taken as an
  argument.
\<close>

definition slice :: "'a list \<Rightarrow> int \<Rightarrow> int \<Rightarrow> panic + 'a list" where
  "slice xs lo hi =
     (if 0 \<le> lo \<and> lo \<le> hi \<and> hi \<le> int (length xs)
      then Inr (take (nat (hi - lo)) (drop (nat lo) xs))
      else Inl (SliceOutOfRange lo hi (length xs)))"

definition truncateString :: "string \<Rightarrow> int \<Rightarrow> panic + string" where
  "truncateString s maxLen =
     (if int (length s) \<le> maxLen then Inr s
      else (case slice s 0 (wrap (maxLen - 3)) of
              Inl p \<Rightarrow> Inl p
            | Inr t \<Rightarrow> Inr (t @ ''...'')))"

definition truncateFromStart :: "string \<Rightarrow> int \<Rightarrow> panic + string" where
  "truncateFromStart s maxLen =
     (if int (length s) \<le> maxLen then Inr s
      else (case slice s (wrap (int (length s) - wrap (maxLen - 3))) (int (length s)) of
              Inl p \<Rightarrow> Inl p
            | Inr t \<Rightarrow> Inr (''...'' @ t)))"

definition getRelativePath ::
  "(string \<Rightarrow> string \<Rightarrow> go_error + string) \<Rightarrow> string \<Rightarrow> string \<Rightarrow> string" where
  "getRelativePath Rel fullPath base =
     (case Rel base fullPath of Inl e \<Rightarrow> fullPath | Inr rel \<Rightarrow> rel)"

text \<open>
  \<open>View\<close>. The frame is kept structured: the error-only frame, the frame of an empty
  view, or the title numbers, the visible rows and the confirmation banner. A row holds
  the selection mark, the size, the truncated name, the truncated directory column
  (\<open>main_go\<close>: the base name of the directory; \<open>part_000\<close>: its path relative to the base
  path) and the flag that marks the cursor row. The column widths computed from the stored
  width are those of \<open>part_000\<close>; \<open>main_go\<close> truncates at the constants 29 and 19.
  Styling, padding and the rendering of the size as text are left out.
\<close>

datatype row = Row bool "64 word" string string bool

datatype frame =
    ErrorFrame go_error
  | EmptyFrame string int int
  | ListFrame string int int "row list" bool

definition render_row ::
  "revision \<Rightarrow> (string \<Rightarrow> string \<Rightarrow> go_error + string) \<Rightarrow> model \<Rightarrow> int \<Rightarrow> int \<Rightarrow> int
     \<Rightarrow> nat \<times> Item \<Rightarrow> panic + row" where
  "render_row rv Rel m nameWidth pathWidth off x =
     (case x of (i, item) \<Rightarrow>
        (let name = Base (Path item);
             cur = (wrap (int i + off) = cursor m)
         in case rv of
              main_go \<Rightarrow>
                (case truncateString name 29 of
                   Inl p \<Rightarrow> Inl p
                 | Inr nm \<Rightarrow>
                     (case truncateString (Base (Dir_path (Path item))) 19 of
                        Inl p \<Rightarrow> Inl p
                      | Inr d \<Rightarrow> Inr (Row (IsSelected item) (Size item) nm d cur)))
            | part_000 \<Rightarrow>
                (case truncateString name nameWidth of
                   Inl p \<Rightarrow> Inl p
                 | Inr nm \<Rightarrow>
                     (case truncateFromStart
                             (getRelativePath Rel (Dir_path (Path item)) (basePath m)) pathWidth of
                        Inl p \<Rightarrow> Inl p
                      | Inr d \<Rightarrow> Inr (Row (IsSelected item) (Size item) nm d cur)))))"

fun render_rows :: "('a \<Rightarrow> panic + row) \<Rightarrow> 'a list \<Rightarrow> panic + row list" where
  "render_rows f [] = Inr []"
| "render_rows f (x # xs) =
     (case f x of
        Inl p \<Rightarrow> Inl p
      | Inr r \<Rightarrow> (case render_rows f xs of Inl p \<Rightarrow> Inl p | Inr rs \<Rightarrow> Inr (r # rs)))"

definition View ::
  "revision \<Rightarrow> (string \<Rightarrow> string \<Rightarrow> go_error + string) \<Rightarrow> model \<Rightarrow> panic + frame" where
  "View rv Rel m =
     (case err m of
        Some e \<Rightarrow> Inr (ErrorFrame e)
      | None \<Rightarrow>
          (let items = items_of m;
               n = int (length items);
               shown = min (wrap (cursor m + 1)) (max n 1);
               nameWidth0 = wrap (wrap (wrap (wrap (width m - 8) - 3) - 30) - 6);
               nameWidth = (if nameWidth0 > 100 then 100 else nameWidth0);
               pathWidth = wrap (wrap (wrap (wrap (width m - 8) - nameWidth) - 3) - 6)
           in if n = 0 then Inr (EmptyFrame (viewMode m) shown n)
              else
                (let visibleHeight0 = wrap (height m - 4);
                     visibleHeight = (if visibleHeight0 < 1 then 1 else visibleHeight0);
                     off0 = (if offset m < 0 then 0 else offset m);
                     maxOffset0 = wrap (n - visibleHeight);
                     maxOffset = (if maxOffset0 < 0 then 0 else maxOffset0);
                     off = (if off0 > maxOffset then maxOffset else off0);
                     endIdx0 = wrap (off + visibleHeight);
                     endIdx = (if endIdx0 > n then n else endIdx0)
                 in case slice items off endIdx of
                      Inl p \<Rightarrow> Inl p
                    | Inr visibleItems \<Rightarrow>
                        (case render_rows (render_row rv Rel m nameWidth pathWidth off)
                                (enumerate 0 visibleItems) of
                           Inl p \<Rightarrow> Inl p
                         | Inr rows \<Rightarrow>
                             Inr (ListFrame (viewMode m) shown n rows (confirming m))))))"

section \<open>Vocabulary for stating the properties\<close>

text \<open>A name is hidden when it starts with a dot: the test the scanner applies to base names.\<close>

definition hidden :: "string \<Rightarrow> bool" where
  "hidden name = HasPrefix name ''.''"

text \<open>
  A directory listing holds plain names (not empty, no separator, neither \<open>.\<close> nor
  \<open>..\<close>), and no name twice.
\<close>

definition valid_name :: "string \<Rightarrow> bool" where
  "valid_name n = (n \<noteq> [] \<and> CHR ''/'' \<notin> set n \<and> n \<noteq> ''.'' \<and> n \<noteq> ''..'')"

fun wf_fs :: "fsnode \<Rightarrow> bool" and wf_ents :: "(string \<times> fsnode) list \<Rightarrow> bool" where
  "wf_fs (Dir ents) = (distinct (map fst ents) \<and> wf_ents ents)"
| "wf_fs _ = True"
| "wf_ents [] = True"
| "wf_ents ((n, c) # rest) = (valid_name n \<and> wf_fs c \<and> wf_ents rest)"

text \<open>A subtree in which every \<open>Lstat\<close> and every listing succeeds.\<close>

fun readable :: "fsnode \<Rightarrow> bool" and readable_ents :: "(string \<times> fsnode) list \<Rightarrow> bool" where
  "readable (File sz) = True"
| "readable (Dir ents) = readable_ents ents"
| "readable DirUnreadable = False"
| "readable LstatFails = False"
| "readable_ents [] = True"
| "readable_ents ((n, c) # rest) = (readable c \<and> readable_ents rest)"

text \<open>
  The sum of the sizes of all non-directory entries below a node, hidden ones included, in
  the 64-bit arithmetic of \<open>Size\<close>.
\<close>

fun total_bytes :: "fsnode \<Rightarrow> 64 word" and total_bytes_ents :: "(string \<times> fsnode) list \<Rightarrow> 64 word" where
  "total_bytes (File sz) = sz"
| "total_bytes (Dir ents) = total_bytes_ents ents"
| "total_bytes DirUnreadable = 0"
| "total_bytes LstatFails = 0"
| "total_bytes_ents [] = 0"
| "total_bytes_ents ((n, c) # rest) = total_bytes c + total_bytes_ents rest"

text \<open>The entry reached from a node by a chain of names, and the path the walk gives it.\<close>

fun lookup :: "fsnode \<Rightarrow> string list \<Rightarrow> fsnode option" where
  "lookup node [] = Some node"
| "lookup (Dir ents) (n # ns) = (case map_of ents n of Some c \<Rightarrow> lookup c ns | None \<Rightarrow> None)"
| "lookup _ (n # ns) = None"

definition path_of :: "string \<Rightarrow> string list \<Rightarrow> string" where
  "path_of root ns = foldl Join root ns"

text \<open>
  The entries the scanner's callback accepts, in the order of the walk (those reached
  without an error through names that are not hidden), and the items they become.
\<close>

fun visited :: "string \<Rightarrow> fsnode \<Rightarrow> (string \<times> fsnode) list"
  and visited_ents :: "string \<Rightarrow> (string \<times> fsnode) list \<Rightarrow> (string \<times> fsnode) list" where
  "visited p (File sz) = (if hidden (Base p) then [] else [(p, File sz)])"
| "visited p (Dir ents) = (if hidden (Base p) then [] else (p, Dir ents) # visited_ents p ents)"
| "visited p DirUnreadable = []"
| "visited p LstatFails = []"
| "visited_ents p [] = []"
| "visited_ents p ((n, c) # rest) = visited (Join p n) c @ visited_ents p rest"

definition new_item :: "string \<Rightarrow> 64 word \<Rightarrow> Item" where
  "new_item p sz = \<lparr>Path = p, Size = sz, IsSelected = False\<rparr>"

fun file_item :: "string \<times> fsnode \<Rightarrow> Items" where
  "file_item (q, File sz) = [new_item q sz]"
| "file_item _ = []"

fun dir_item :: "string \<times> fsnode \<Rightarrow> Items" where
  "dir_item (q, Dir ents) =
     (if readable (Dir ents) then [new_item q (total_bytes (Dir ents))] else [])"
| "dir_item _ = []"

definition scan_ret :: "string \<Rightarrow> fsnode \<Rightarrow> walk_ret" where
  "scan_ret p node =
     (case node of Dir ents \<Rightarrow> if hidden (Base p) then SkipDir else RetNil | _ \<Rightarrow> RetNil)"

text \<open>
  The element lists \<open>Clean\<close> produces: no empty element, no separator inside an element, no
  \<open>.\<close>, and \<open>..\<close> only in a leading block of a path that is not rooted.
\<close>

definition nf :: "bool \<Rightarrow> string list \<Rightarrow> bool" where
  "nf r out =
     ((\<forall>c\<in>set out. c \<noteq> [] \<and> CHR ''/'' \<notin> set c \<and> c \<noteq> ''.'') \<and>
      ''..'' \<notin> set (dropWhile (\<lambda>c. c = ''..'') out) \<and>
      (r \<longrightarrow> ''..'' \<notin> set out))"

text \<open>
  Removing a list of paths in order, stopping at the first failure: what the confirm-delete
  loop asks of the world for the selected items.
\<close>

fun remove_all :: "'w remove \<Rightarrow> string list \<Rightarrow> 'w \<Rightarrow> go_error option \<times> 'w" where
  "remove_all rm [] w = (None, w)"
| "remove_all rm (p # ps) w =
     (case rm p w of (Some e, w') \<Rightarrow> (Some e, w') | (None, w') \<Rightarrow> remove_all rm ps w')"

definition selected_paths :: "Items \<Rightarrow> string list" where
  "selected_paths xs = map Path (filter IsSelected xs)"

definition unselect :: "Item \<Rightarrow> Item" where
  "unselect it = it\<lparr>IsSelected := False\<rparr>"

text \<open>The active collection replaced, as the handlers do through \<open>items\<close>.\<close>

definition set_items :: "Items \<Rightarrow> model \<Rightarrow> model" where
  "set_items xs m = (if viewMode m = ''folders'' then m\<lparr>folders := xs\<rparr> else m\<lparr>files := xs\<rparr>)"

text \<open>
  The rows that fit the viewport: its height minus four lines of title, header and help,
  at least one.
\<close>

definition visibleRows :: "model \<Rightarrow> int" where
  "visibleRows m = max 1 (height m - 4)"

text \<open>
  The navigation keys (move, page, jump, switch view), and the navigation and resize
  messages with viewport heights of at least 5.
\<close>

fun nav_key :: "key \<Rightarrow> bool" where
  "nav_key KUp = True"
| "nav_key KDown = True"
| "nav_key KPageUp = True"
| "nav_key KPageDown = True"
| "nav_key KHome = True"
| "nav_key KEnd = True"
| "nav_key KTab = True"
| "nav_key _ = False"

fun nav_event :: "msg \<Rightarrow> bool" where
  "nav_event (KeyMsg k) = nav_key (key_of k)"
| "nav_event (WindowSizeMsg wd ht) = (5 \<le> ht)"
| "nav_event OtherMsg = False"

text \<open>The heights of the resize messages of a sequence, in order.\<close>

fun heights :: "msg list \<Rightarrow> int list" where
  "heights [] = []"
| "heights (WindowSizeMsg wd ht # es) = ht # heights es"
| "heights (e # es) = heights es"

text \<open>A run's result with the error field blanked, for comparing runs up to that field.\<close>

definition forget_err :: "panic + (model \<times> cmd \<times> 'w) \<Rightarrow> panic + (model \<times> cmd \<times> 'w)" where
  "forget_err r = (case r of Inl p \<Rightarrow> Inl p | Inr (m, c, w) \<Rightarrow> Inr (m\<lparr>err := None\<rparr>, c, w))"

text \<open>
  A world for concrete runs: it records every removal attempt and refuses the paths of a
  given list.
\<close>

definition rm_log :: "string list \<Rightarrow> string list remove" where
  "rm_log bad p w = (if p \<in> set bad then Some (PathError ''remove'' p) else None, w @ [p])"

text \<open>
  The same sum over the unbounded integers, and the trees whose sizes are not negative:
  with them the 64-bit sum can be read as an exact count when it does not overflow.
\<close>

fun byte_count :: "fsnode \<Rightarrow> int" and byte_count_ents :: "(string \<times> fsnode) list \<Rightarrow> int" where
  "byte_count (File sz) = sint sz"
| "byte_count (Dir ents) = byte_count_ents ents"
| "byte_count DirUnreadable = 0"
| "byte_count LstatFails = 0"
| "byte_count_ents [] = 0"
| "byte_count_ents ((n, c) # rest) = byte_count c + byte_count_ents rest"

fun sizes_nonneg :: "fsnode \<Rightarrow> bool" and sizes_nonneg_ents :: "(string \<times> fsnode) list \<Rightarrow> bool" where
  "sizes_nonneg (File sz) = (0 \<le> sint sz)"
| "sizes_nonneg (Dir ents) = sizes_nonneg_ents ents"
| "sizes_nonneg DirUnreadable = True"
| "sizes_nonneg LstatFails = True"
| "sizes_nonneg_ents [] = True"
| "sizes_nonneg_ents ((n, c) # rest) = (sizes_nonneg c \<and> sizes_nonneg_ents rest)"

text \<open>
  The two trees of the specification's scenarios: three files of 10, 30 and 20 bytes; and a
  directory \<open>d\<close> with a 100-byte file and a hidden directory \<open>.git\<close> holding a 500-byte
  file (listings are in the sorted order \<open>readDirNames\<close> returns).
\<close>

definition tree_abc :: fsnode where
  "tree_abc = Dir [(''a'', File 10), (''b'', File 30), (''c'', File 20)]"

definition tree_git :: fsnode where
  "tree_git = Dir [(''d'', Dir [(''.git'', Dir [(''g'', File 500)]), (''f'', File 100)])]"

text \<open>
  The cursor invariants: the cursor indexes the active collection and the offset is not
  beyond it; and the cursor lies inside the window of visible rows. \<open>fits\<close> bounds a
  viewport height so that no sum of a list length and the height leaves the range of \<open>int\<close>.
\<close>

definition fits :: "model \<Rightarrow> int \<Rightarrow> bool" where
  "fits m ht =
     (5 \<le> ht \<and> int (length (files m)) + ht \<le> 2 ^ 63 \<and> int (length (folders m)) + ht \<le> 2 ^ 63)"

definition nav_inv :: "model \<Rightarrow> bool" where
  "nav_inv m =
     ((viewMode m = ''files'' \<or> viewMode m = ''folders'') \<and> fits m (height m) \<and>
      (items_of m \<noteq> [] \<longrightarrow>
         0 \<le> offset m \<and> offset m \<le> cursor m \<and> cursor m < int (length (items_of m))))"

definition window_inv :: "model \<Rightarrow> bool" where
  "window_inv m = (items_of m \<noteq> [] \<longrightarrow> cursor m \<le> offset m + visibleRows m - 1)"

text \<open>
  Every resize message of a run arrives when the cursor fits the window of the new height
  (or the active collection is empty): no resize cuts the cursor off.
\<close>

fun resizes_keep_cursor :: "revision \<Rightarrow> 'w remove \<Rightarrow> msg list \<Rightarrow> model \<Rightarrow> 'w \<Rightarrow> bool" where
  "resizes_keep_cursor rv rm [] m w = True"
| "resizes_keep_cursor rv rm (ev # evs) m w =
     ((case ev of
         WindowSizeMsg wd ht \<Rightarrow> items_of m = [] \<or> cursor m \<le> offset m + max 1 (ht - 4) - 1
       | _ \<Rightarrow> True) \<and>
      (case Update rv rm ev m w of
         Inr (m', NoCmd, w') \<Rightarrow> resizes_keep_cursor rv rm evs m' w'
       | _ \<Rightarrow> True))"

text \<open>What the invariant gives the arithmetic of a handler on a collection that is not empty.\<close>

definition in_range :: "model \<Rightarrow> bool" where
  "in_range m =
     (5 \<le> height m \<and> int (length (items_of m)) + height m \<le> 9223372036854775808 \<and>
      0 \<le> offset m \<and> offset m \<le> cursor m \<and> cursor m < int (length (items_of m)))"

text \<open>The condition on a message: a navigation key, or a resize to a height that fits.\<close>

definition ok_event :: "model \<Rightarrow> msg \<Rightarrow> bool" where
  "ok_event m ev =
     (case ev of KeyMsg k \<Rightarrow> nav_key (key_of k) | WindowSizeMsg wd ht \<Rightarrow> fits m ht
      | OtherMsg \<Rightarrow> False)"

text \<open>Items and models for concrete runs.\<close>

definition sel :: "string \<Rightarrow> 64 word \<Rightarrow> Item" where
  "sel p sz = \<lparr>Path = p, Size = sz, IsSelected = True\<rparr>"

definition three_files :: Items where
  "three_files = [new_item ''/r/a'' 30, new_item ''/r/b'' 20, new_item ''/r/c'' 10]"

definition after_failure :: model where
  "after_failure =
     (initial part_000 [new_item ''/r/a'' 30, sel ''/r/b'' 20, sel ''/r/c'' 10] [] ''/r'')
       \<lparr>err := Some (PathError ''remove'' ''/r/b'')\<rparr>"

section \<open>Facts about paths\<close>

lemma split_sep_nonempty [simp]: "split_sep s \<noteq> []"
  by (induction s) (auto split: list.splits)

lemma split_sep_plain: "CHR ''/'' \<notin> set n \<Longrightarrow> split_sep n = [n]"
  by (induction n) auto

lemma split_sep_append: "split_sep (a @ CHR ''/'' # b) = split_sep a @ split_sep b"
  by (induction a) (auto split: list.splits)

lemma split_sep_slashfree: "c \<in> set (split_sep s) \<Longrightarrow> CHR ''/'' \<notin> set c"
  by (induction s arbitrary: c) (auto split: if_splits list.splits)

lemma clean_step_name: "valid_name n \<Longrightarrow> clean_step r out n = out @ [n]"
  by (simp add: clean_step_def valid_name_def)

lemma rooted_append: "p \<noteq> [] \<Longrightarrow> rooted (p @ q) = rooted p"
  by (simp add: rooted_def)

lemma clean_elems_snoc:
  assumes "p \<noteq> []" "valid_name n"
  shows "clean_elems (p @ CHR ''/'' # n) = clean_elems p @ [n]"
proof -
  from assms(2) have "split_sep n = [n]" by (simp add: split_sep_plain valid_name_def)
  then have "split_sep (p @ CHR ''/'' # n) = split_sep p @ [n]" by (simp add: split_sep_append)
  with assms show ?thesis by (simp add: clean_elems_def rooted_append clean_step_name)
qed

lemma Join_name:
  assumes "valid_name n"
  shows "Join p n = render (rooted p) (clean_elems p @ [n])"
proof (cases "p = []")
  case True
  from assms have "split_sep n = [n]" "\<not> rooted n"
    by (auto simp: split_sep_plain valid_name_def rooted_def) (metis list.set_sel(1))
  with True assms show ?thesis
    by (simp add: Join_def Clean_def clean_elems_def clean_step_name rooted_def valid_name_def
        clean_step_def)
next
  case False
  with assms show ?thesis
    by (simp add: Join_def Clean_def clean_elems_snoc rooted_append)
qed


lemma ipath_simps [simp]: "ipath [] = []" "ipath (n # ns) = CHR ''/'' # n @ ipath ns"
  by (simp_all add: ipath_def)

lemma ipath_append: "ipath (a @ b) = ipath a @ ipath b"
  by (simp add: ipath_def)

lemma ipath_Nil_iff [simp]: "ipath ns = [] \<longleftrightarrow> ns = []"
  by (cases ns) auto

lemma render_snoc:
  "render r (out @ [n]) =
     (if r then ipath out @ CHR ''/'' # n
      else if out = [] then n else tl (ipath out) @ CHR ''/'' # n)"
  by (auto simp: render_def ipath_append)

lemma Base_sep:
  assumes "n \<noteq> []" "CHR ''/'' \<notin> set n"
  shows "Base (q @ CHR ''/'' # n) = n"
proof -
  from assms obtain c cs where rn: "rev n = c # cs" by (cases "rev n") auto
  then have "c \<in> set n" by (metis list.set_intros(1) set_rev)
  with assms have c: "c \<noteq> CHR ''/''" by auto
  have all: "\<forall>x\<in>set (rev n). x \<noteq> CHR ''/''" using assms by auto
  have st: "strip_trailing (q @ CHR ''/'' # n) = q @ CHR ''/'' # n"
    using rn c by (simp add: strip_trailing_def)
  have "takeWhile (\<lambda>c. c \<noteq> CHR ''/'') (rev n @ CHR ''/'' # rev q) = rev n"
    using all by (simp add: takeWhile_tail)
  then have "last_element (q @ CHR ''/'' # n) = n"
    by (simp add: last_element_def)
  with st assms show ?thesis by (simp add: Base_def)
qed

lemma Base_plain:
  assumes "n \<noteq> []" "CHR ''/'' \<notin> set n"
  shows "Base n = n"
proof -
  from assms obtain c cs where rn: "rev n = c # cs" by (cases "rev n") auto
  then have "c \<in> set n" by (metis list.set_intros(1) set_rev)
  with assms have c: "c \<noteq> CHR ''/''" by auto
  have st: "strip_trailing n = n" using rn c by (simp add: strip_trailing_def)
  have "\<forall>x\<in>set (rev n). x \<noteq> CHR ''/''" using assms by auto
  then have tw: "takeWhile (\<lambda>c. c \<noteq> CHR ''/'') (rev n) = rev n"
    by (simp only: takeWhile_eq_all_conv)
  have "last_element n = rev (rev n)" unfolding last_element_def tw ..
  then have "last_element n = n" by simp
  with st assms show ?thesis by (simp add: Base_def)
qed

lemma Base_Join: "valid_name n \<Longrightarrow> Base (Join p n) = n"
  by (simp add: Join_name render_snoc Base_sep Base_plain valid_name_def)

subsection \<open>Cleaned element lists\<close>

lemma set_dropWhile_butlast: "set (dropWhile P (butlast xs)) \<subseteq> set (dropWhile P xs)"
  by (induction xs) (auto dest: in_set_butlastD)

lemma dropWhile_snoc_subset: "set (dropWhile P xs) \<subseteq> set (dropWhile P (xs @ ys))"
  by (induction xs) auto

lemma nf_all_dotdot:
  assumes "nf r out" "out \<noteq> []" "last out = ''..''"
  shows "\<forall>c\<in>set out. c = ''..''"
proof (rule ccontr)
  assume "\<not> (\<forall>c\<in>set out. c = ''..'')"
  then have ne: "dropWhile (\<lambda>c. c = ''..'') out \<noteq> []" by (simp add: dropWhile_eq_Nil_conv)
  have "out = takeWhile (\<lambda>c. c = ''..'') out @ dropWhile (\<lambda>c. c = ''..'') out" by simp
  with ne have "last out = last (dropWhile (\<lambda>c. c = ''..'') out)" by (metis last_appendR)
  with ne assms(3) have "''..'' \<in> set (dropWhile (\<lambda>c. c = ''..'') out)" by (metis last_in_set)
  with assms(1) show False by (simp add: nf_def)
qed

lemma nf_Nil [simp]: "nf r []"
  by (simp add: nf_def)

lemma nf_butlast: "nf r out \<Longrightarrow> nf r (butlast out)"
  using set_dropWhile_butlast [of "\<lambda>c. c = ''..''" out]
  by (auto simp: nf_def dest: in_set_butlastD)

lemma nf_prefix: "nf r (out @ [c]) \<Longrightarrow> nf r out"
  using dropWhile_snoc_subset [of "\<lambda>c. c = ''..''" out "[c]"] by (auto simp: nf_def)

lemma nf_snoc_dotdot:
  assumes "nf r out" "\<not> r" "out = [] \<or> last out = ''..''"
  shows "nf r (out @ [''..''])"
proof -
  have "\<forall>c\<in>set out. c = ''..''" using assms nf_all_dotdot by (cases "out = []") auto
  then have "dropWhile (\<lambda>c. c = ''..'') (out @ [''..'']) = []" by simp
  with assms show ?thesis by (auto simp: nf_def)
qed

lemma nf_snoc_name:
  assumes "nf r out" "c \<noteq> []" "CHR ''/'' \<notin> set c" "c \<noteq> ''.''" "c \<noteq> ''..''"
  shows "nf r (out @ [c])"
proof -
  have "set (dropWhile (\<lambda>c. c = ''..'') (out @ [c])) \<subseteq> set (dropWhile (\<lambda>c. c = ''..'') out) \<union> {c}"
    by (induction out) auto
  with assms show ?thesis by (auto simp: nf_def)
qed

lemma nf_step:
  assumes "nf r out" "CHR ''/'' \<notin> set c"
  shows "nf r (clean_step r out c)"
proof (cases "c = ''..''")
  case True
  show ?thesis
  proof (cases "out \<noteq> [] \<and> last out \<noteq> ''..''")
    case True
    with \<open>c = ''..''\<close> assms(1) show ?thesis by (simp add: clean_step_def nf_butlast)
  next
    case False
    then have "out = [] \<or> last out = ''..''" by blast
    from nf_snoc_dotdot [OF assms(1) _ this] False \<open>c = ''..''\<close> assms(1) show ?thesis
      by (cases r) (auto simp: clean_step_def)
  qed
next
  case False
  with assms show ?thesis by (auto simp: clean_step_def nf_snoc_name)
qed

lemma nf_foldl:
  "nf r out \<Longrightarrow> \<forall>c\<in>set cs. CHR ''/'' \<notin> set c \<Longrightarrow> nf r (foldl (clean_step r) out cs)"
  by (induction cs arbitrary: out) (auto simp: nf_step)

lemma nf_clean_elems: "nf (rooted p) (clean_elems p)"
  unfolding clean_elems_def by (rule nf_foldl) (auto dest: split_sep_slashfree)

lemma foldl_nf_id: "nf r out \<Longrightarrow> foldl (clean_step r) [] out = out"
proof (induction out rule: rev_induct)
  case Nil
  then show ?case by simp
next
  case (snoc c out)
  from snoc.prems have p: "nf r out" by (rule nf_prefix)
  from snoc.prems have c: "c \<noteq> []" "c \<noteq> ''.''" by (auto simp: nf_def)
  show ?case
  proof (cases "c = ''..''")
    case True
    with snoc.prems have nr: "\<not> r" by (auto simp: nf_def)
    have "out = [] \<or> last out = ''..''"
    proof (rule ccontr)
      assume a: "\<not> (out = [] \<or> last out = ''..'')"
      then obtain x where "x \<in> set out" "\<not> x = ''..''" by (metis last_in_set)
      then have "dropWhile (\<lambda>c. c = ''..'') (out @ [c]) = dropWhile (\<lambda>c. c = ''..'') out @ [c]"
        by (rule dropWhile_append1)
      with True snoc.prems show False by (simp add: nf_def)
    qed
    with True nr snoc.IH [OF p] show ?thesis by (auto simp: clean_step_def)
  next
    case False
    with c snoc.IH [OF p] show ?thesis by (simp add: clean_step_def)
  qed
qed

lemma split_sep_name_ipath:
  "CHR ''/'' \<notin> set c \<Longrightarrow> \<forall>d\<in>set cs. CHR ''/'' \<notin> set d \<Longrightarrow> split_sep (c @ ipath cs) = c # cs"
proof (induction cs arbitrary: c)
  case Nil
  then show ?case by (simp add: split_sep_plain)
next
  case (Cons d ds)
  then have "split_sep (d @ ipath ds) = d # ds" by simp
  with Cons.prems(1) show ?case by (simp add: split_sep_append split_sep_plain)
qed

lemma split_sep_render:
  assumes "nf r out" "out \<noteq> []"
  shows "split_sep (render r out) = (if r then [] # out else out)"
proof -
  from assms(2) obtain c cs where o: "out = c # cs" by (cases out) auto
  with assms(1) have "CHR ''/'' \<notin> set c" "\<forall>d\<in>set cs. CHR ''/'' \<notin> set d" by (auto simp: nf_def)
  then have "split_sep (c @ ipath cs) = c # cs" by (rule split_sep_name_ipath)
  with o show ?thesis by (simp add: render_def)
qed

lemma rooted_render:
  assumes "nf r out" "out \<noteq> []"
  shows "rooted (render r out) = r"
proof -
  from assms(2) obtain c cs where o: "out = c # cs" by (cases out) auto
  with assms(1) have "c \<noteq> []" "CHR ''/'' \<notin> set c" by (auto simp: nf_def)
  then have "hd c \<noteq> CHR ''/''" by (metis list.set_sel(1))
  with o \<open>c \<noteq> []\<close> show ?thesis by (simp add: render_def rooted_def)
qed

lemma clean_elems_render:
  assumes "nf r out" "out \<noteq> []"
  shows "clean_elems (render r out) = out"
  using assms
  by (cases r)
    (simp_all add: clean_elems_def rooted_render split_sep_render foldl_nf_id clean_step_def)

lemma Join_render:
  assumes "nf r out" "out \<noteq> []" "valid_name n"
  shows "Join (render r out) n = render r (out @ [n])"
  using assms by (simp add: Join_name rooted_render clean_elems_render)

lemma nf_snoc_valid: "nf r out \<Longrightarrow> valid_name n \<Longrightarrow> nf r (out @ [n])"
  by (rule nf_snoc_name) (auto simp: valid_name_def)

lemma foldl_Join_render:
  "nf r out \<Longrightarrow> out \<noteq> [] \<Longrightarrow> \<forall>n\<in>set ns. valid_name n \<Longrightarrow>
   foldl Join (render r out) ns = render r (out @ ns)"
proof (induction ns arbitrary: out)
  case Nil
  then show ?case by simp
next
  case (Cons n ns)
  then have "nf r (out @ [n])" "out @ [n] \<noteq> []" by (auto intro: nf_snoc_valid)
  from Cons.IH [OF this] Cons.prems show ?case by (simp add: Join_render)
qed

lemma path_of_Cons_render:
  assumes "\<forall>n\<in>set (n # ns). valid_name n"
  shows "path_of root (n # ns) = render (rooted root) (clean_elems root @ n # ns)"
proof -
  have "nf (rooted root) (clean_elems root @ [n])"
    using assms nf_clean_elems nf_snoc_valid by simp
  from foldl_Join_render [OF this, of ns] assms show ?thesis
    by (simp add: path_of_def Join_name)
qed

lemma nf_append_valid: "nf r out \<Longrightarrow> \<forall>n\<in>set ns. valid_name n \<Longrightarrow> nf r (out @ ns)"
proof (induction ns arbitrary: out)
  case Nil
  then show ?case by simp
next
  case (Cons n ns)
  then have "nf r (out @ [n])" by (auto intro: nf_snoc_valid)
  from Cons.IH [OF this] Cons.prems show ?case by simp
qed

lemma takeWhile_ipath:
  "CHR ''/'' \<notin> set n \<Longrightarrow> takeWhile (\<lambda>c. c \<noteq> CHR ''/'') (n @ ipath ns) = n"
  by (cases ns) (auto simp: takeWhile_tail)

lemma ipath_inj:
  "\<forall>n\<in>set ns. CHR ''/'' \<notin> set n \<Longrightarrow> \<forall>n\<in>set ms. CHR ''/'' \<notin> set n \<Longrightarrow>
   ipath ns = ipath ms \<Longrightarrow> ns = ms"
proof (induction ns arbitrary: ms)
  case Nil
  then show ?case by (cases ms) auto
next
  case (Cons n ns)
  show ?case
  proof (cases ms)
    case Nil
    with Cons.prems show ?thesis by simp
  next
    case (Cons m ms')
    with Cons.prems have eq: "n @ ipath ns = m @ ipath ms'"
      and sn: "CHR ''/'' \<notin> set n" and sm: "CHR ''/'' \<notin> set m" by auto
    have "n = takeWhile (\<lambda>c. c \<noteq> CHR ''/'') (n @ ipath ns)"
      using sn by (simp add: takeWhile_ipath)
    also have "\<dots> = m" using sm eq by (simp add: takeWhile_ipath)
    finally have nm: "n = m" .
    with eq have "ipath ns = ipath ms'" by simp
    with Cons.IH [of ms'] Cons.prems Cons nm show ?thesis by simp
  qed
qed

lemma render_inj:
  assumes "nf r a" "nf r b" "a \<noteq> []" "b \<noteq> []" "render r a = render r b"
  shows "a = b"
proof -
  from assms(3,4) obtain x xs y ys where ab: "a = x # xs" "b = y # ys"
    by (metis list.exhaust)
  with assms(5) have "ipath a = ipath b" by (cases r) (simp_all add: render_def)
  moreover from assms(1,2) have "\<forall>n\<in>set a. CHR ''/'' \<notin> set n" "\<forall>n\<in>set b. CHR ''/'' \<notin> set n"
    by (auto simp: nf_def)
  ultimately show ?thesis by (rule ipath_inj [rotated 2])
qed

lemma path_of_inj:
  assumes "\<forall>n\<in>set ns. valid_name n" "\<forall>n\<in>set ms. valid_name n" "path_of p ns = path_of p ms"
  shows "ns = ms"
proof -
  let ?r = "rooted p" and ?c = "clean_elems p"
  have deep: "path_of p (k # ks) \<noteq> p" if v: "\<forall>n\<in>set (k # ks). valid_name n" for k ks
  proof
    assume eq: "path_of p (k # ks) = p"
    have n: "nf ?r (?c @ k # ks)" using nf_clean_elems v by (rule nf_append_valid)
    from eq have "p = render ?r (?c @ k # ks)" by (simp add: path_of_Cons_render [OF v])
    then have "clean_elems p = clean_elems (render ?r (?c @ k # ks))" by simp
    also have "\<dots> = ?c @ k # ks" using n by (rule clean_elems_render) simp
    finally show False by simp
  qed
  show ?thesis
  proof (cases ns)
    case Nil
    show ?thesis
    proof (cases ms)
      case (Cons m ms')
      with deep [of m ms'] assms Nil show ?thesis by (simp add: path_of_def)
    qed (simp add: Nil)
  next
    case (Cons n ns')
    show ?thesis
    proof (cases ms)
      case Nil
      with deep [of n ns'] assms Cons show ?thesis by (simp add: path_of_def)
    next
      case ms: (Cons m ms')
      have "render ?r (?c @ ns) = render ?r (?c @ ms)"
        using assms Cons ms path_of_Cons_render [of n ns' p] path_of_Cons_render [of m ms' p]
        by simp
      moreover have "nf ?r (?c @ ns)" "nf ?r (?c @ ms)"
        using assms nf_clean_elems nf_append_valid by blast+
      moreover have "?c @ ns \<noteq> []" "?c @ ms \<noteq> []" using Cons ms by simp_all
      ultimately have "?c @ ns = ?c @ ms" using render_inj by blast
      then show ?thesis by simp
    qed
  qed
qed


section \<open>Facts about the walks\<close>

lemma getDirSize_walk:
  "(readable node \<longrightarrow> walk getDirSize_fn p node sz = (RetNil, sz + total_bytes node)) \<and>
   (\<not> readable node \<longrightarrow> (\<exists>e sz'. walk getDirSize_fn p node sz = (RetErr e, sz')))"
  "(readable_ents ents \<longrightarrow> walk_names getDirSize_fn p ents sz = (RetNil, sz + total_bytes_ents ents)) \<and>
   (\<not> readable_ents ents \<longrightarrow> (\<exists>e sz'. walk_names getDirSize_fn p ents sz = (RetErr e, sz')))"
proof (induction getDirSize_fn p node sz and getDirSize_fn p ents sz rule: walk_walk_names.induct)
  case (1 path ents s)
  then show ?case by (simp add: getDirSize_fn_def)
next
  case (2 path s)
  then show ?case by (simp add: getDirSize_fn_def)
next
  case (3 path sz s)
  then show ?case by (simp add: getDirSize_fn_def)
next
  case (4 path s)
  then show ?case by (simp add: getDirSize_fn_def)
next
  case (5 path s)
  then show ?case by simp
next
  case (6 path name node rest s)
  show ?case
  proof (cases "node = LstatFails")
    case True
    then show ?thesis by (simp add: getDirSize_fn_def)
  next
    case False
    show ?thesis
    proof (cases "readable node")
      case True
      with False 6 show ?thesis by (auto simp: Let_def add.assoc)
    next
      case nr: False
      with False 6 show ?thesis by (auto simp: Let_def)
    qed
  qed
qed

lemma getDirSize_eq:
  "readable (Dir ents) \<Longrightarrow> getDirSize p (Dir ents) = (total_bytes (Dir ents), None)"
  "\<not> readable (Dir ents) \<Longrightarrow> \<exists>sz e. getDirSize p (Dir ents) = (sz, Some e)"
  using getDirSize_walk(1) [of "Dir ents" p 0]
  by (auto simp: getDirSize_def Walk_def)

lemma scan_fn_Dir:
  "scan_fn p (Dir ents) None (fs, ds) =
     (scan_ret p (Dir ents), (fs, ds @ (if hidden (Base p) then [] else dir_item (p, Dir ents))))"
proof (cases "readable (Dir ents)")
  case True
  then show ?thesis
    by (simp add: scan_fn_def scan_ret_def hidden_def getDirSize_eq(1) new_item_def)
next
  case False
  from getDirSize_eq(2) [OF this] obtain sz e where "getDirSize p (Dir ents) = (sz, Some e)"
    by blast
  with False show ?thesis
    by (simp add: scan_fn_def scan_ret_def hidden_def)
qed

lemma scan_fn_File:
  "scan_fn p (File sz) None (fs, ds) =
     (RetNil, (fs @ (if hidden (Base p) then [] else [new_item p sz]), ds))"
  by (simp add: scan_fn_def hidden_def new_item_def)

lemma scan_fn_err: "scan_fn p node (Some e) st = (RetNil, st)"
  by (cases st) (simp add: scan_fn_def)

lemma scan_walk:
  "walk scan_fn p node st =
     (scan_ret p node,
      (fst st @ concat (map file_item (visited p node)),
       snd st @ concat (map dir_item (visited p node))))"
  "walk_names scan_fn p ents st =
     (RetNil,
      (fst st @ concat (map file_item (visited_ents p ents)),
       snd st @ concat (map dir_item (visited_ents p ents))))"
proof (induction scan_fn p node st and scan_fn p ents st rule: walk_walk_names.induct)
  case (1 path ents s)
  obtain fs ds where s: "s = (fs, ds)" by (cases s)
  show ?case
  proof (cases "hidden (Base path)")
    case True
    then show ?thesis by (simp add: s scan_fn_Dir scan_ret_def)
  next
    case False
    then have r: "scan_fn path (Dir ents) None s = (RetNil, (fs, ds @ dir_item (path, Dir ents)))"
      by (simp add: s scan_fn_Dir scan_ret_def)
    from 1 [OF r [symmetric] refl] r False show ?thesis
      by (simp add: scan_ret_def s)
  qed
next
  case (2 path s)
  then show ?case by (simp add: scan_fn_err scan_ret_def)
next
  case (3 path sz s)
  then show ?case by (cases s) (simp add: scan_fn_File scan_ret_def)
next
  case (4 path s)
  then show ?case by (simp add: scan_fn_err scan_ret_def)
next
  case (5 path s)
  then show ?case by simp
next
  case (6 path name node rest s)
  show ?case
  proof (cases "node = LstatFails")
    case True
    with 6 show ?thesis by (simp add: scan_fn_err)
  next
    case False
    with 6 show ?thesis
      by (auto simp: Let_def scan_ret_def split: fsnode.splits if_splits)
  qed
qed

lemma wf_ents_mem: "wf_ents ents \<Longrightarrow> (n, c) \<in> set ents \<Longrightarrow> valid_name n \<and> wf_fs c"
  by (induction ents) auto

lemma lookup_valid:
  "lookup node ns = Some c \<Longrightarrow> wf_fs node \<Longrightarrow> (\<forall>n\<in>set ns. valid_name n) \<and> wf_fs c"
proof (induction node ns rule: lookup.induct)
  case (2 ents n ns)
  then obtain c' where c': "map_of ents n = Some c'" and l: "lookup c' ns = Some c"
    by (auto split: option.splits)
  from c' have "(n, c') \<in> set ents" by (rule map_of_SomeD)
  with 2(3) have "valid_name n" "wf_fs c'" using wf_ents_mem by auto
  with 2(1) [OF c' l] show ?case by simp
qed auto

lemma path_of_Cons: "path_of p (n # ns) = path_of (Join p n) ns"
  by (simp add: path_of_def)

lemma visited_lookup:
  "(q, c) \<in> set (visited p node) \<Longrightarrow> wf_fs node \<Longrightarrow>
     \<exists>ns. lookup node ns = Some c \<and> q = path_of p ns \<and> \<not> hidden (Base p) \<and>
          (\<forall>n\<in>set ns. \<not> hidden n)"
  "(q, c) \<in> set (visited_ents p ents) \<Longrightarrow> wf_ents ents \<Longrightarrow> distinct (map fst ents) \<Longrightarrow>
     \<exists>n ns. lookup (Dir ents) (n # ns) = Some c \<and> q = path_of p (n # ns) \<and>
          (\<forall>m\<in>set (n # ns). \<not> hidden m)"
proof (induction p node and p ents rule: visited_visited_ents.induct)
  case (1 p sz)
  then have "lookup (File sz) [] = Some c \<and> q = path_of p [] \<and> \<not> hidden (Base p)"
    by (auto simp: path_of_def split: if_splits)
  then show ?case by (metis empty_iff list.set(1))
next
  case (2 p ents)
  from 2(2) have nh: "\<not> hidden (Base p)" by (auto split: if_splits)
  from 2(2) nh consider "(q, c) = (p, Dir ents)" | "(q, c) \<in> set (visited_ents p ents)"
    by auto
  then show ?case
  proof cases
    case 1
    then have "lookup (Dir ents) [] = Some c \<and> q = path_of p []"
      by (simp add: path_of_def)
    with nh show ?thesis by (metis empty_iff list.set(1))
  next
    case 2
    with "2.IH" [OF nh] "2.prems"(2) obtain n ns where
      "lookup (Dir ents) (n # ns) = Some c" "q = path_of p (n # ns)"
      "\<forall>m\<in>set (n # ns). \<not> hidden m"
      by auto
    with nh show ?thesis by blast
  qed
next
  case (6 p n c0 rest)
  from "6.prems" have vn: "valid_name n" and wc: "wf_fs c0" and wr: "wf_ents rest"
    and dr: "distinct (map fst rest)" and nn: "n \<notin> fst ` set rest"
    by auto
  from "6.prems"(1) consider "(q, c) \<in> set (visited (Join p n) c0)"
    | "(q, c) \<in> set (visited_ents p rest)" by auto
  then show ?case
  proof cases
    case 1
    from "6.IH"(1) [OF 1 wc] obtain ns where
      ns: "lookup c0 ns = Some c" "q = path_of (Join p n) ns" "\<not> hidden (Base (Join p n))"
        "\<forall>m\<in>set ns. \<not> hidden m"
      by blast
    from ns(3) vn have "\<not> hidden n" by (simp add: Base_Join)
    with ns have "lookup (Dir ((n, c0) # rest)) (n # ns) = Some c \<and> q = path_of p (n # ns) \<and>
        (\<forall>m\<in>set (n # ns). \<not> hidden m)"
      by (simp add: path_of_Cons)
    then show ?thesis by blast
  next
    case 2
    from "6.IH"(2) [OF 2 wr dr] obtain n' ns where
      ns: "lookup (Dir rest) (n' # ns) = Some c" "q = path_of p (n' # ns)"
        "\<forall>m\<in>set (n' # ns). \<not> hidden m"
      by blast
    from ns(1) obtain c' where "map_of rest n' = Some c'" by (auto split: option.splits)
    then have "(n', c') \<in> set rest" by (rule map_of_SomeD)
    with nn have "n' \<noteq> n" by force
    with ns(1) have "lookup (Dir ((n, c0) # rest)) (n' # ns) = Some c" by simp
    with ns show ?thesis by blast
  qed
qed auto

section \<open>Facts about sorting and the scan's result\<close>

lemma sort_desc_contract: "sort_contract sort_desc"
proof -
  have "\<not> Less (sort_desc xs) b a" if "a < b" "b < length (sort_desc xs)" for xs a b
  proof -
    have "sorted (map (\<lambda>it. - sint (Size it)) (sort_desc xs))"
      by (simp add: sort_desc_def)
    with that have "- sint (Size (sort_desc xs ! a)) \<le> - sint (Size (sort_desc xs ! b))"
      by (simp add: sorted_iff_nth_mono)
    then show ?thesis by (simp add: Less_def word_sless_alt)
  qed
  then show ?thesis by (simp add: sort_contract_def sort_desc_def)
qed

lemma contract_set: "sort_contract srt \<Longrightarrow> set (srt xs) = set xs"
  by (metis sort_contract_def set_mset_mset)

lemma contract_Nil: "sort_contract srt \<Longrightarrow> srt [] = []"
  by (metis sort_contract_def mset_zero_iff)

lemma contract_sorted:
  assumes "sort_contract srt"
  shows "sorted_wrt (\<lambda>a b. Size b \<le>s Size a) (srt xs)"
proof -
  have "Size (srt xs ! j) \<le>s Size (srt xs ! i)" if "i < j" "j < length (srt xs)" for i j
  proof -
    from assms that have "\<not> Less (srt xs) j i" unfolding sort_contract_def by blast
    then show ?thesis by (simp add: Less_def word_sless_alt word_sle_eq)
  qed
  then show ?thesis by (simp add: sorted_wrt_iff_nth_less)
qed

lemma contract_unique:
  assumes "sort_contract srt" "distinct (map Size xs)"
  shows "srt xs = sort_desc xs"
proof -
  let ?k = "\<lambda>it. - sint (Size it)"
  have inj: "inj_on ?k (set xs)"
  proof (rule inj_onI)
    fix a b assume "a \<in> set xs" "b \<in> set xs" "?k a = ?k b"
    then have "Size a = Size b" by (simp add: signed_word_eqI)
    with assms(2) \<open>a \<in> set xs\<close> \<open>b \<in> set xs\<close> show "a = b"
      by (meson distinct_map inj_onD)
  qed
  have m: "mset (srt xs) = mset xs" using assms(1) by (simp add: sort_contract_def)
  have d: "distinct xs" using assms(2) by (simp add: distinct_map)
  have s1: "sorted (map ?k (srt xs))"
  proof -
    have "?k (srt xs ! i) \<le> ?k (srt xs ! j)" if "i < j" "j < length (srt xs)" for i j
    proof -
      from assms(1) that have "\<not> Less (srt xs) j i" unfolding sort_contract_def by blast
      then show ?thesis by (simp add: Less_def word_sless_alt)
    qed
    then show ?thesis by (simp add: sorted_iff_nth_mono_less)
  qed
  have ss: "set (srt xs) = set xs" using assms(1) by (rule contract_set)
  have ds: "distinct (srt xs)" using m d by (metis mset_eq_imp_distinct_iff)
  have d1: "distinct (map ?k (srt xs))" using inj ds ss by (simp add: distinct_map)
  have d2: "distinct (map ?k (sort_desc xs))" using inj d by (simp add: distinct_map sort_desc_def)
  have "map ?k (srt xs) = map ?k (sort_desc xs)"
    using s1 d1 d2 ss by (intro sorted_distinct_set_unique) (simp_all add: sort_desc_def)
  moreover have "inj_on ?k (set (srt xs) \<union> set (sort_desc xs))"
    using inj ss by (simp add: sort_desc_def)
  ultimately show ?thesis by (simp add: inj_on_map_eq_map)
qed

lemma scanDirectory_eq:
  "scanDirectory srt root fs =
     (srt (concat (map file_item (visited root fs))),
      srt (concat (map dir_item (visited root fs))), None)"
proof (cases "fs = LstatFails")
  case True
  then show ?thesis by (simp add: scanDirectory_def Walk_def scan_fn_err)
next
  case False
  then show ?thesis
    by (simp add: scanDirectory_def Walk_def scan_walk(1) scan_ret_def split: fsnode.splits)
qed

lemma visited_hidden_root: "hidden (Base p) \<Longrightarrow> visited p node = []"
  by (cases node) auto

lemma visited_base:
  "(q, c) \<in> set (visited p node) \<Longrightarrow> \<not> hidden (Base q)"
  "(q, c) \<in> set (visited_ents p ents) \<Longrightarrow> \<not> hidden (Base q)"
  by (induction p node and p ents rule: visited_visited_ents.induct) (auto split: if_splits)

lemma file_item_one:
  "it \<in> set (file_item x) \<Longrightarrow> \<exists>q sz. x = (q, File sz) \<and> it = new_item q sz"
  by (cases x rule: file_item.cases) auto

lemma file_item_mem:
  "it \<in> set (concat (map file_item vs)) \<Longrightarrow> \<exists>q sz. (q, File sz) \<in> set vs \<and> it = new_item q sz"
  using file_item_one by fastforce

lemma dir_item_one:
  "it \<in> set (dir_item x) \<Longrightarrow>
   \<exists>q ents. x = (q, Dir ents) \<and> readable (Dir ents) \<and> it = new_item q (total_bytes (Dir ents))"
  by (cases x rule: dir_item.cases) (auto split: if_splits)

lemma dir_item_mem:
  "it \<in> set (concat (map dir_item vs)) \<Longrightarrow>
   \<exists>q ents. (q, Dir ents) \<in> set vs \<and> readable (Dir ents) \<and> it = new_item q (total_bytes (Dir ents))"
  using dir_item_one by fastforce


subsection \<open>The 64-bit sum as an exact count\<close>

lemma byte_count_nonneg:
  "sizes_nonneg node \<Longrightarrow> 0 \<le> byte_count node"
  "sizes_nonneg_ents ents \<Longrightarrow> 0 \<le> byte_count_ents ents"
  by (induction node and ents rule: byte_count_byte_count_ents.induct) auto

lemma sint_add_exact:
  fixes a b :: "64 word"
  assumes "0 \<le> sint a" "0 \<le> sint b" "sint a + sint b < 2 ^ 63"
  shows "sint (a + b) = sint a + sint b"
proof -
  have "sint (a + b) = signed_take_bit 63 (sint a + sint b)"
    by (simp add: sint_word_add)
  also have "\<dots> = sint a + sint b"
    using assms by (intro signed_take_bit_int_eq_self) auto
  finally show ?thesis .
qed

lemma total_bytes_exact:
  "sizes_nonneg node \<Longrightarrow> byte_count node < 2 ^ 63 \<Longrightarrow> sint (total_bytes node) = byte_count node"
  "sizes_nonneg_ents ents \<Longrightarrow> byte_count_ents ents < 2 ^ 63 \<Longrightarrow>
     sint (total_bytes_ents ents) = byte_count_ents ents"
proof (induction node and ents rule: total_bytes_total_bytes_ents.induct)
  case (6 n c rest)
  from 6(3) have nn: "sizes_nonneg c" "sizes_nonneg_ents rest" by auto
  then have ge: "0 \<le> byte_count c" "0 \<le> byte_count_ents rest"
    by (auto dest: byte_count_nonneg)
  with 6(4) have lt: "byte_count c < 2 ^ 63" "byte_count_ents rest < 2 ^ 63" by auto
  from 6(1) [OF nn(1) lt(1)] 6(2) [OF nn(2) lt(2)]
  have eq: "sint (total_bytes c) = byte_count c" "sint (total_bytes_ents rest) = byte_count_ents rest" .
  with ge 6(4) show ?case by (simp add: sint_add_exact)
qed auto

subsection \<open>The scenarios, and the entry behind a scanned path\<close>

lemma scan_abc:
  "sort_contract srt \<Longrightarrow> scanDirectory srt ''/r'' tree_abc =
     ([new_item ''/r/b'' 30, new_item ''/r/c'' 20, new_item ''/r/a'' 10], [new_item ''/r'' 60], None)"
proof -
  assume c: "sort_contract srt"
  have v: "visited ''/r'' tree_abc =
      [(''/r'', tree_abc), (''/r/a'', File 10), (''/r/b'', File 30), (''/r/c'', File 20)]"
    by (simp add: tree_abc_def hidden_def HasPrefix_def Base_def strip_trailing_def
        last_element_def Join_def Clean_def clean_elems_def rooted_def clean_step_def
        render_def ipath_def)
  have f: "concat (map file_item (visited ''/r'' tree_abc)) =
      [new_item ''/r/a'' 10, new_item ''/r/b'' 30, new_item ''/r/c'' 20]"
    unfolding v by (simp add: tree_abc_def)
  have d: "concat (map dir_item (visited ''/r'' tree_abc)) = [new_item ''/r'' 60]"
    unfolding v by (simp add: tree_abc_def)
  have "srt [new_item ''/r/a'' 10, new_item ''/r/b'' 30, new_item ''/r/c'' 20] =
      sort_desc [new_item ''/r/a'' 10, new_item ''/r/b'' 30, new_item ''/r/c'' 20]"
    using c by (rule contract_unique) (simp add: new_item_def)
  also have "\<dots> = [new_item ''/r/b'' 30, new_item ''/r/c'' 20, new_item ''/r/a'' 10]"
    by (simp add: sort_desc_def new_item_def)
  finally have sf: "srt [new_item ''/r/a'' 10, new_item ''/r/b'' 30, new_item ''/r/c'' 20] =
      [new_item ''/r/b'' 30, new_item ''/r/c'' 20, new_item ''/r/a'' 10]" .
  have "srt [new_item ''/r'' 60] = sort_desc [new_item ''/r'' 60]"
    using c by (rule contract_unique) simp
  then have sd: "srt [new_item ''/r'' 60] = [new_item ''/r'' 60]"
    by (simp add: sort_desc_def)
  show ?thesis by (simp add: scanDirectory_eq f d sf sd)
qed

lemma scan_git:
  "scanDirectory sort_desc ''/r'' tree_git =
     ([new_item ''/r/d/f'' 100], [new_item ''/r'' 600, new_item ''/r/d'' 600], None)"
proof -
  have v: "visited ''/r'' tree_git =
      [(''/r'', tree_git),
       (''/r/d'', Dir [(''.git'', Dir [(''g'', File 500)]), (''f'', File 100)]),
       (''/r/d/f'', File 100)]"
    by (simp add: tree_git_def hidden_def HasPrefix_def Base_def strip_trailing_def
        last_element_def Join_def Clean_def clean_elems_def rooted_def clean_step_def
        render_def ipath_def)
  show ?thesis
    unfolding scanDirectory_eq v
    by (simp add: tree_git_def sort_desc_def new_item_def)
qed

text \<open>The same tree scanned from a root path that is not clean: the children's paths are.\<close>

lemma scan_git_unclean:
  "scanDirectory sort_desc ''./r'' tree_git =
     ([new_item ''r/d/f'' 100], [new_item ''./r'' 600, new_item ''r/d'' 600], None)"
proof -
  have v: "visited ''./r'' tree_git =
      [(''./r'', tree_git),
       (''r/d'', Dir [(''.git'', Dir [(''g'', File 500)]), (''f'', File 100)]),
       (''r/d/f'', File 100)]"
    by (simp add: tree_git_def hidden_def HasPrefix_def Base_def strip_trailing_def
        last_element_def Join_def Clean_def clean_elems_def rooted_def clean_step_def
        render_def ipath_def)
  show ?thesis
    unfolding scanDirectory_eq v
    by (simp add: tree_git_def sort_desc_def new_item_def)
qed

lemma scanned_entry:
  assumes "wf_fs fs" "(q, c) \<in> set (visited root fs)"
  shows "\<exists>ns. lookup fs ns = Some c \<and> q = path_of root ns \<and> \<not> hidden (Base root) \<and>
           (\<forall>n\<in>set ns. \<not> hidden n) \<and>
           (\<forall>ms c'. lookup fs ms = Some c' \<and> path_of root ms = q \<longrightarrow> ms = ns)"
proof -
  from visited_lookup(1) [OF assms(2) assms(1)] obtain ns where
    ns: "lookup fs ns = Some c" "q = path_of root ns" "\<not> hidden (Base root)"
      "\<forall>n\<in>set ns. \<not> hidden n" by blast
  have "ms = ns" if "lookup fs ms = Some c'" "path_of root ms = q" for ms c'
  proof -
    from lookup_valid [OF that(1) assms(1)] have "\<forall>n\<in>set ms. valid_name n" by simp
    moreover from lookup_valid [OF ns(1) assms(1)] have "\<forall>n\<in>set ns. valid_name n" by simp
    ultimately show ?thesis using that(2) ns(2) path_of_inj by metis
  qed
  with ns show ?thesis by blast
qed

section \<open>Claims about the scanner\<close>

text \<open>
  C9. If the base name of the root path starts with a dot, \<open>scanDirectory\<close> returns no
  error and two empty collections, whatever lies at the root: the root and its whole tree
  are skipped.
\<close>

theorem C9_hidden_root_scans_empty:
  assumes "sort_contract srt" "HasPrefix (Base rootPath) ''.''"
  shows "scanDirectory srt rootPath fs = ([], [], None)"
  using assms by (simp add: scanDirectory_eq visited_hidden_root hidden_def contract_Nil)

theorem C9_hidden_root_witness:
  "sort_contract sort_desc \<and> HasPrefix (Base ''/home/u/.cache'') ''.'' \<and>
   scanDirectory sort_desc ''/home/u/.cache''
     (Dir [(''a'', File 5), (''b'', Dir [(''c'', File 7)])]) = ([], [], None)"
proof -
  have h: "HasPrefix (Base ''/home/u/.cache'') ''.''" by code_simp
  from C9_hidden_root_scans_empty [OF sort_desc_contract h] sort_desc_contract h
  show ?thesis by simp
qed

text \<open>
  C3. The claim: \<open>scanDirectory\<close> fails exactly when the root cannot be opened, and
  swallows every error met below the root. The code swallows the root's error too: the
  callback answers every error it is handed with nil, so \<open>Walk\<close> returns nil for every
  tree, also when \<open>Lstat\<close> of the root fails; \<open>initialModel\<close> then starts the session on two
  empty collections, although it and \<open>main\<close> test the returned error and would exit with
  "Error initializing". This theorem evaluates the code there; it does not confirm the
  claim.
\<close>

theorem C3_unreadable_root_reports_no_error:
  "snd (snd (scanDirectory srt rootPath fs)) = None \<and>
   scanDirectory srt rootPath LstatFails = (srt [], srt [], None) \<and>
   initialModel main_go srt Abs rootPath LstatFails = Inr (initial main_go (srt []) (srt []) rootPath) \<and>
   initialModel part_000 srt Inr rootPath LstatFails = Inr (initial part_000 (srt []) (srt []) rootPath)"
  by (simp add: scanDirectory_eq initialModel_def)


text \<open>
  C6. The two collections a scan returns are each in non-increasing order of size. For a
  root holding only files \<open>a\<close> (10 bytes), \<open>b\<close> (30) and \<open>c\<close> (20) the files come out as
  \<open>b, c, a\<close>, and the folders hold the root alone (no proper subdirectory).
\<close>

theorem C6_scan_sorted_by_size_descending:
  assumes "sort_contract srt"
  shows "sorted_wrt (\<lambda>a b. Size b \<le>s Size a) (fst (scanDirectory srt root fs)) \<and>
         sorted_wrt (\<lambda>a b. Size b \<le>s Size a) (fst (snd (scanDirectory srt root fs))) \<and>
         scanDirectory srt ''/r'' tree_abc =
           ([new_item ''/r/b'' 30, new_item ''/r/c'' 20, new_item ''/r/a'' 10],
            [new_item ''/r'' 60], None)"
proof -
  have "sorted_wrt (\<lambda>a b. Size b \<le>s Size a) (fst (scanDirectory srt root fs))"
    using assms by (simp add: scanDirectory_eq contract_sorted)
  moreover have "sorted_wrt (\<lambda>a b. Size b \<le>s Size a) (fst (snd (scanDirectory srt root fs)))"
    using assms by (simp add: scanDirectory_eq contract_sorted)
  ultimately show ?thesis using scan_abc [OF assms] by blast
qed


theorem C6_scan_sorted_witness:
  "sort_contract sort_desc \<and>
   sorted_wrt (\<lambda>a b. Size b \<le>s Size a) (fst (scanDirectory sort_desc ''/r'' tree_git)) \<and>
   sorted_wrt (\<lambda>a b. Size b \<le>s Size a) (fst (snd (scanDirectory sort_desc ''/r'' tree_git))) \<and>
   scanDirectory sort_desc ''/r'' tree_abc =
     ([new_item ''/r/b'' 30, new_item ''/r/c'' 20, new_item ''/r/a'' 10], [new_item ''/r'' 60], None)"
  using C6_scan_sorted_by_size_descending [OF sort_desc_contract, of "''/r''" tree_git]
    sort_desc_contract by simp

text \<open>
  C2, as stated, fails: \<open>getDirSize\<close> applies no name filter, so the bytes under a hidden
  directory are counted. In the scenario the folder \<open>d\<close> gets 600 bytes, not 100 (and the
  root itself is listed as a folder).
\<close>

theorem C2_hidden_bytes_counted_counterexample:
  "fst (snd (scanDirectory sort_desc ''/r'' tree_git)) =
     [\<lparr>Path = ''/r'', Size = 600, IsSelected = False\<rparr>,
      \<lparr>Path = ''/r/d'', Size = 600, IsSelected = False\<rparr>] \<and>
   fst (snd (scanDirectory sort_desc ''/r'' tree_git)) \<noteq>
     [\<lparr>Path = ''/r/d'', Size = 100, IsSelected = False\<rparr>] \<and>
   tree_git = Dir [(''d'', Dir [(''.git'', Dir [(''g'', File 500)]), (''f'', File 100)])]"
proof -
  have a: "fst (snd (scanDirectory sort_desc ''/r'' tree_git)) =
     [\<lparr>Path = ''/r'', Size = 600, IsSelected = False\<rparr>,
      \<lparr>Path = ''/r/d'', Size = 600, IsSelected = False\<rparr>]"
    by (simp add: scan_git new_item_def)
  show ?thesis unfolding a by (simp add: tree_git_def)
qed


text \<open>
  C2, amended. Every folder item of a scan stands for exactly one entry of the tree, a
  directory below which nothing failed to be read, and its size is the sum of the sizes of
  all non-directory entries below that directory, hidden ones and those under hidden
  directories included. The sum is taken in 64-bit arithmetic; it is the exact count when
  no size is negative and the count is below \<open>2^63\<close>.
\<close>

theorem C2_folder_size_counts_all_files_below:
  assumes "sort_contract srt" "wf_fs fs"
    and "it \<in> set (fst (snd (scanDirectory srt root fs)))"
  shows "\<exists>ns ents. lookup fs ns = Some (Dir ents) \<and> Path it = path_of root ns \<and>
           (\<forall>ms c. lookup fs ms = Some c \<and> path_of root ms = Path it \<longrightarrow> ms = ns) \<and>
           readable (Dir ents) \<and>
           Size it = total_bytes (Dir ents) \<and>
           (sizes_nonneg (Dir ents) \<and> byte_count (Dir ents) < 2 ^ 63 \<longrightarrow>
              sint (Size it) = byte_count (Dir ents))"
proof -
  from assms(1,3) have "it \<in> set (concat (map dir_item (visited root fs)))"
    by (simp add: scanDirectory_eq contract_set)
  from dir_item_mem [OF this] obtain q ents where
    q: "(q, Dir ents) \<in> set (visited root fs)" "readable (Dir ents)"
      "it = new_item q (total_bytes (Dir ents))" by blast
  from scanned_entry [OF assms(2) q(1)] obtain ns where
    ns: "lookup fs ns = Some (Dir ents)" "q = path_of root ns"
      "\<forall>ms c'. lookup fs ms = Some c' \<and> path_of root ms = q \<longrightarrow> ms = ns" by blast
  have p: "Path it = q" "Size it = total_bytes (Dir ents)" using q(3) by (simp_all add: new_item_def)
  have "sint (Size it) = byte_count (Dir ents)"
    if "sizes_nonneg (Dir ents)" "byte_count (Dir ents) < 2 ^ 63"
    using total_bytes_exact(1) [OF that] p by simp
  then have "lookup fs ns = Some (Dir ents) \<and> Path it = path_of root ns \<and>
           (\<forall>ms c. lookup fs ms = Some c \<and> path_of root ms = Path it \<longrightarrow> ms = ns) \<and>
           readable (Dir ents) \<and>
           Size it = total_bytes (Dir ents) \<and>
           (sizes_nonneg (Dir ents) \<and> byte_count (Dir ents) < 2 ^ 63 \<longrightarrow>
              sint (Size it) = byte_count (Dir ents))"
    using ns p q(2) by simp
  then show ?thesis by (intro exI)
qed


theorem C2_folder_size_witness:
  "sort_contract sort_desc \<and> wf_fs tree_git \<and>
   \<lparr>Path = ''r/d'', Size = 600, IsSelected = False\<rparr> \<in>
     set (fst (snd (scanDirectory sort_desc ''./r'' tree_git))) \<and>
   (\<exists>ns ents. lookup tree_git ns = Some (Dir ents) \<and> ''r/d'' = path_of ''./r'' ns \<and>
      (600 :: 64 word) = total_bytes (Dir ents))"
proof -
  have w: "wf_fs tree_git" by (simp add: tree_git_def valid_name_def)
  have m: "\<lparr>Path = ''r/d'', Size = 600, IsSelected = False\<rparr> \<in>
      set (fst (snd (scanDirectory sort_desc ''./r'' tree_git)))"
    by (simp add: scan_git_unclean new_item_def)
  from C2_folder_size_counts_all_files_below [OF sort_desc_contract w m]
  have "\<exists>ns ents. lookup tree_git ns = Some (Dir ents) \<and> ''r/d'' = path_of ''./r'' ns \<and>
      (600 :: 64 word) = total_bytes (Dir ents)"
    by auto
  with sort_desc_contract w m show ?thesis by blast
qed

text \<open>
  C7. No item of either collection has a base name that starts with a dot; and no entry of
  the tree reached through a name that starts with a dot (a hidden entry or anything
  below a hidden directory) has its path in either collection.
\<close>

theorem C7_hidden_entries_never_listed:
  assumes "sort_contract srt" "wf_fs fs" "scanDirectory srt root fs = (fls, dirs, e)"
  shows "(\<forall>it\<in>set fls \<union> set dirs. \<not> HasPrefix (Base (Path it)) ''.'') \<and>
         (\<forall>ns c. lookup fs ns = Some c \<and> (\<exists>n\<in>set ns. HasPrefix n ''.'') \<longrightarrow>
                 path_of root ns \<notin> Path ` (set fls \<union> set dirs))"
proof -
  from assms(1,3) have fls: "set fls = set (concat (map file_item (visited root fs)))"
    and dirs: "set dirs = set (concat (map dir_item (visited root fs)))"
    by (auto simp: scanDirectory_eq contract_set)
  have src: "\<exists>c. (Path it, c) \<in> set (visited root fs)" if "it \<in> set fls \<union> set dirs" for it
  proof -
    from that consider "it \<in> set (concat (map file_item (visited root fs)))"
      | "it \<in> set (concat (map dir_item (visited root fs)))"
      using fls dirs by auto
    then show ?thesis
    proof cases
      case 1
      from file_item_mem [OF 1] show ?thesis by (auto simp: new_item_def)
    next
      case 2
      from dir_item_mem [OF 2] show ?thesis by (auto simp: new_item_def)
    qed
  qed
  have one: "\<not> HasPrefix (Base (Path it)) ''.''" if "it \<in> set fls \<union> set dirs" for it
    using src [OF that] visited_base(1) by (auto simp: hidden_def)
  have two: "path_of root ns \<notin> Path ` (set fls \<union> set dirs)"
    if l: "lookup fs ns = Some c" and h: "\<exists>n\<in>set ns. HasPrefix n ''.''" for ns c
  proof
    assume "path_of root ns \<in> Path ` (set fls \<union> set dirs)"
    then obtain it where it: "it \<in> set fls \<union> set dirs" "Path it = path_of root ns"
      by (metis imageE)
    from src [OF it(1)] obtain c' where "(Path it, c') \<in> set (visited root fs)" by blast
    from scanned_entry [OF assms(2) this] obtain ms where
      ms: "\<forall>n\<in>set ms. \<not> hidden n"
        "\<forall>ks k. lookup fs ks = Some k \<and> path_of root ks = Path it \<longrightarrow> ks = ms" by blast
    from ms(2) l it(2) have "ns = ms" by metis
    with ms(1) h show False by (auto simp: hidden_def)
  qed
  from one two show ?thesis by blast
qed


theorem C7_hidden_entries_witness:
  "sort_contract sort_desc \<and> wf_fs tree_git \<and>
   scanDirectory sort_desc ''./r'' tree_git =
     ([new_item ''r/d/f'' 100], [new_item ''./r'' 600, new_item ''r/d'' 600], None) \<and>
   lookup tree_git [''d'', ''.git'', ''g''] = Some (File 500) \<and>
   path_of ''./r'' [''d'', ''.git'', ''g''] = ''r/d/.git/g'' \<and>
   ''r/d/.git/g'' \<notin>
     Path ` (set [new_item ''r/d/f'' 100] \<union> set [new_item ''./r'' 600, new_item ''r/d'' 600])"
proof -
  have w: "wf_fs tree_git" by (simp add: tree_git_def valid_name_def)
  have l: "lookup tree_git [''d'', ''.git'', ''g''] = Some (File 500)"
    by (simp add: tree_git_def)
  have p: "path_of ''./r'' [''d'', ''.git'', ''g''] = ''r/d/.git/g''"
    by (simp add: path_of_def Join_def Clean_def clean_elems_def rooted_def clean_step_def
        render_def ipath_def)
  have h: "\<exists>n\<in>set [''d'', ''.git'', ''g'']. HasPrefix n ''.''" by (simp add: HasPrefix_def)
  from C7_hidden_entries_never_listed [OF sort_desc_contract w scan_git_unclean] l h p
  have "''r/d/.git/g'' \<notin>
      Path ` (set [new_item ''r/d/f'' 100] \<union> set [new_item ''./r'' 600, new_item ''r/d'' 600])"
    by metis
  with sort_desc_contract w scan_git_unclean l p show ?thesis by blast
qed

section \<open>Facts about the session\<close>

subsection \<open>The confirm-delete loop\<close>

lemma unselect_id: "\<not> IsSelected it \<Longrightarrow> it\<lparr>IsSelected := False\<rparr> = it"
  by (cases it) simp

lemma delete_loop_all_ok:
  "remove_all rm (selected_paths xs) w = (None, w') \<Longrightarrow>
   delete_loop rm xs w = (map unselect xs, None, w')"
proof (induction xs arbitrary: w)
  case Nil
  then show ?case by (simp add: selected_paths_def)
next
  case (Cons x xs)
  show ?case
  proof (cases "IsSelected x")
    case True
    with Cons.prems obtain w1 where w1: "rm (Path x) w = (None, w1)"
      "remove_all rm (selected_paths xs) w1 = (None, w')"
      by (auto simp: selected_paths_def split: prod.splits option.splits)
    from Cons.IH [OF w1(2)] w1(1) True show ?thesis by (simp add: unselect_def)
  next
    case False
    with Cons.prems have "remove_all rm (selected_paths xs) w = (None, w')"
      by (simp add: selected_paths_def)
    from Cons.IH [OF this] False show ?thesis by (simp add: unselect_def unselect_id)
  qed
qed

lemma delete_loop_first_failure:
  "remove_all rm (selected_paths pre) w = (None, w1) \<Longrightarrow> IsSelected x \<Longrightarrow>
   rm (Path x) w1 = (Some e, w2) \<Longrightarrow>
   delete_loop rm (pre @ x # post) w = (map unselect pre @ x # post, Some e, w2)"
proof (induction pre arbitrary: w)
  case Nil
  then show ?case by (simp add: selected_paths_def)
next
  case (Cons y pre)
  show ?case
  proof (cases "IsSelected y")
    case True
    with Cons.prems(1) obtain w0 where w0: "rm (Path y) w = (None, w0)"
      "remove_all rm (selected_paths pre) w0 = (None, w1)"
      by (auto simp: selected_paths_def split: prod.splits option.splits)
    from Cons.IH [OF w0(2) Cons.prems(2,3)] w0(1) True show ?thesis by (simp add: unselect_def)
  next
    case False
    with Cons.prems(1) have "remove_all rm (selected_paths pre) w = (None, w1)"
      by (simp add: selected_paths_def)
    from Cons.IH [OF this Cons.prems(2,3)] False show ?thesis
      by (simp add: unselect_def unselect_id)
  qed
qed

lemma key_of_literals [simp]:
  "key_of ''ctrl+c'' = KQuit" "key_of ''q'' = KQuit" "key_of ''up'' = KUp" "key_of ''k'' = KUp"
  "key_of ''down'' = KDown" "key_of ''j'' = KDown" "key_of ''pageup'' = KPageUp"
  "key_of ''pagedown'' = KPageDown" "key_of ''home'' = KHome" "key_of ''end'' = KEnd"
  "key_of ''tab'' = KTab" "key_of '' '' = KSpace" "key_of ''d'' = KD" "key_of ''y'' = KY"
  "key_of ''n'' = KN"
  by (simp_all add: key_of_def)

subsection \<open>The error field\<close>

lemma items_of_err [simp]: "items_of (m\<lparr>err := x\<rparr>) = items_of m"
  by (simp add: items_of_def)

lemma key_err_commute:
  "key_up (m\<lparr>err := x\<rparr>) = (key_up m)\<lparr>err := x\<rparr>"
  "key_down (m\<lparr>err := x\<rparr>) = (key_down m)\<lparr>err := x\<rparr>"
  "key_pageup (m\<lparr>err := x\<rparr>) = (key_pageup m)\<lparr>err := x\<rparr>"
  "key_pagedown (m\<lparr>err := x\<rparr>) = (key_pagedown m)\<lparr>err := x\<rparr>"
  "key_home (m\<lparr>err := x\<rparr>) = (key_home m)\<lparr>err := x\<rparr>"
  "key_end (m\<lparr>err := x\<rparr>) = (key_end m)\<lparr>err := x\<rparr>"
  "key_tab (m\<lparr>err := x\<rparr>) = (key_tab m)\<lparr>err := x\<rparr>"
  "key_n (m\<lparr>err := x\<rparr>) = (key_n m)\<lparr>err := x\<rparr>"
  "resize rv wd ht (m\<lparr>err := x\<rparr>) = (resize rv wd ht m)\<lparr>err := x\<rparr>"
  by (simp_all add: key_up_def key_down_def key_pageup_def key_pagedown_def key_home_def
      key_end_def key_tab_def key_n_def resize_def Let_def)

lemma key_err_unchanged:
  "err (key_up m) = err m" "err (key_down m) = err m" "err (key_pageup m) = err m"
  "err (key_pagedown m) = err m" "err (key_home m) = err m" "err (key_end m) = err m"
  "err (key_tab m) = err m" "err (key_n m) = err m" "err (resize rv wd ht m) = err m"
  by (simp_all add: key_up_def key_down_def key_pageup_def key_pagedown_def key_home_def
      key_end_def key_tab_def key_n_def resize_def Let_def)

lemma key_space_err:
  "key_space rv (m\<lparr>err := x\<rparr>) =
     (case key_space rv m of Inl p \<Rightarrow> Inl p | Inr m' \<Rightarrow> Inr (m'\<lparr>err := x\<rparr>))"
  by (cases rv)
    (simp_all add: key_space_def toggle_files_def toggle_folders_def toggle_at_def Let_def)

lemma key_space_keeps_err: "key_space rv m = Inr m' \<Longrightarrow> err m' = err m"
  by (cases rv)
    (auto simp: key_space_def toggle_files_def toggle_folders_def toggle_at_def Let_def
      split: if_splits)

lemma key_y_err:
  "key_y rm (m\<lparr>err := x\<rparr>) w = (m1, w1) \<Longrightarrow> key_y rm m w = (m2, w2) \<Longrightarrow>
     w1 = w2 \<and> m1\<lparr>err := None\<rparr> = m2\<lparr>err := None\<rparr>"
  by (auto simp: key_y_def Let_def split: if_splits prod.splits option.splits)

lemma key_y_keeps_err: "key_y rm m w = (m', w') \<Longrightarrow> err m = Some e \<Longrightarrow> err m' \<noteq> None"
  by (auto simp: key_y_def Let_def split: if_splits prod.splits option.splits)

lemma handle_key_err_irrelevant:
  "forget_err (handle_key rv rm k (m\<lparr>err := x\<rparr>) w) = forget_err (handle_key rv rm k m w)"
proof (cases k)
  case KY
  obtain m1 w1 where a: "key_y rm (m\<lparr>err := x\<rparr>) w = (m1, w1)" by (cases "key_y rm (m\<lparr>err := x\<rparr>) w")
  obtain m2 w2 where b: "key_y rm m w = (m2, w2)" by (cases "key_y rm m w")
  from key_y_err [OF a b] a b KY show ?thesis by (simp add: forget_err_def)
next
  case KSpace
  then show ?thesis by (simp add: forget_err_def key_space_err split: sum.splits)
qed (simp_all add: forget_err_def key_err_commute)

lemma Update_err_irrelevant:
  "forget_err (Update rv rm ev (m\<lparr>err := x\<rparr>) w) = forget_err (Update rv rm ev m w)"
proof (cases ev)
  case (KeyMsg k)
  then show ?thesis by (simp add: handle_key_err_irrelevant)
next
  case (WindowSizeMsg wd ht)
  then show ?thesis by (simp add: forget_err_def key_err_commute)
next
  case OtherMsg
  then show ?thesis by (simp add: forget_err_def)
qed

lemma handle_key_keeps_err:
  assumes "err m = Some e" "handle_key rv rm k m w = Inr (m', c, w')"
  shows "err m' \<noteq> None"
proof (cases k)
  case KY
  with assms show ?thesis by (auto split: prod.splits dest: key_y_keeps_err)
next
  case KSpace
  with assms show ?thesis by (auto split: sum.splits dest: key_space_keeps_err)
qed (use assms in \<open>auto simp: key_err_unchanged\<close>)

lemma Update_keeps_err:
  assumes "err m = Some e" "Update rv rm ev m w = Inr (m', c, w')"
  shows "err m' \<noteq> None"
proof (cases ev)
  case (KeyMsg k)
  with assms handle_key_keeps_err show ?thesis by auto
next
  case (WindowSizeMsg wd ht)
  with assms show ?thesis by (auto simp: key_err_unchanged)
next
  case OtherMsg
  with assms show ?thesis by auto
qed

lemma run_keeps_err:
  "err m = Some e \<Longrightarrow> run rv rm evs m w = Inr (m', c, w') \<Longrightarrow> err m' \<noteq> None"
proof (induction evs arbitrary: m w e)
  case Nil
  then show ?case by auto
next
  case (Cons ev evs)
  from Cons.prems(2) obtain m1 c1 w1 where u: "Update rv rm ev m w = Inr (m1, c1, w1)"
    by (auto split: sum.splits)
  from Update_keeps_err [OF Cons.prems(1) u] obtain e1 where e1: "err m1 = Some e1" by auto
  show ?case
  proof (cases c1)
    case NoCmd
    with Cons.prems(2) u have "run rv rm evs m1 w1 = Inr (m', c, w')" by simp
    from Cons.IH [OF e1 this] show ?thesis .
  next
    case Quit
    with Cons.prems(2) u e1 show ?thesis by auto
  qed
qed

lemma forget_err_Inr:
  "forget_err r1 = forget_err r2 \<Longrightarrow> r1 = Inr (m1, c1, w1) \<Longrightarrow>
   \<exists>m2. r2 = Inr (m2, c1, w1) \<and> m1\<lparr>err := None\<rparr> = m2\<lparr>err := None\<rparr>"
  by (auto simp: forget_err_def split: sum.splits)

lemma forget_err_Inl:
  "forget_err r1 = forget_err r2 \<Longrightarrow> r1 = Inl p \<Longrightarrow> r2 = Inl p"
  by (auto simp: forget_err_def split: sum.splits)

lemma run_err_irrelevant:
  "forget_err (run rv rm evs (m\<lparr>err := x\<rparr>) w) = forget_err (run rv rm evs m w)"
proof (induction evs arbitrary: m w x)
  case Nil
  then show ?case by (simp add: forget_err_def)
next
  case (Cons ev evs)
  note u = Update_err_irrelevant [of rv rm ev x m w]
  show ?case
  proof (cases "Update rv rm ev (m\<lparr>err := x\<rparr>) w")
    case (Inl p)
    from forget_err_Inl [OF u Inl] Inl show ?thesis by simp
  next
    case (Inr r)
    obtain m1 c1 w1 where r: "r = (m1, c1, w1)" by (cases r)
    from forget_err_Inr [OF u] Inr r obtain m2 where
      m2: "Update rv rm ev m w = Inr (m2, c1, w1)" "m1\<lparr>err := None\<rparr> = m2\<lparr>err := None\<rparr>"
      by blast
    from m2(2) have m1: "m1 = m2\<lparr>err := err m1\<rparr>"
      by (cases m1, cases m2) simp
    show ?thesis
    proof (cases c1)
      case NoCmd
      have "forget_err (run rv rm evs m1 w1) = forget_err (run rv rm evs m2 w1)"
        using Cons.IH [where m = m2 and x = "err m1" and w = w1] m1 by simp
      with Inr r m2(1) NoCmd show ?thesis by simp
    next
      case Quit
      with Inr r m2 show ?thesis by (simp add: forget_err_def)
    qed
  qed
qed


subsection \<open>Cursor and offset\<close>

lemma wrap_id: "- 9223372036854775808 \<le> k \<Longrightarrow> k < 9223372036854775808 \<Longrightarrow> wrap k = k"
  unfolding wrap_def by (rule signed_take_bit_int_eq_self) simp_all

lemma items_of_upd [simp]:
  "items_of (m\<lparr>cursor := c\<rparr>) = items_of m"
  "items_of (m\<lparr>offset := off\<rparr>) = items_of m"
  "items_of (m\<lparr>height := h\<rparr>) = items_of m"
  "items_of (m\<lparr>width := wd\<rparr>) = items_of m"
  "items_of (m\<lparr>windowSize := ws\<rparr>) = items_of m"
  "items_of (m\<lparr>confirming := b\<rparr>) = items_of m"
  by (simp_all add: items_of_def)

lemma fits_upd [simp]:
  "fits (m\<lparr>cursor := c\<rparr>) ht = fits m ht"
  "fits (m\<lparr>offset := off\<rparr>) ht = fits m ht"
  "fits (m\<lparr>height := h\<rparr>) ht = fits m ht"
  "fits (m\<lparr>width := wd\<rparr>) ht = fits m ht"
  "fits (m\<lparr>windowSize := ws\<rparr>) ht = fits m ht"
  "fits (m\<lparr>viewMode := v\<rparr>) ht = fits m ht"
  by (simp_all add: fits_def)

lemma nav_inv_in_range: "nav_inv m \<Longrightarrow> items_of m \<noteq> [] \<Longrightarrow> in_range m"
  by (auto simp: nav_inv_def fits_def in_range_def items_of_def)

lemma key_up_exact:
  assumes "in_range m"
  shows "cursor (key_up m) = (if cursor m > 0 then cursor m - 1 else cursor m)"
    and "offset (key_up m) = (if cursor m > 0 \<and> cursor m - 1 < offset m then cursor m - 1 else offset m)"
proof -
  have w: "wrap (cursor m - 1) = cursor m - 1" if "cursor m > 0"
    using assms that by (intro wrap_id) (auto simp: in_range_def)
  show "cursor (key_up m) = (if cursor m > 0 then cursor m - 1 else cursor m)"
    and "offset (key_up m) = (if cursor m > 0 \<and> cursor m - 1 < offset m then cursor m - 1 else offset m)"
    using w by (auto simp: key_up_def Let_def)
qed

lemma key_down_exact:
  assumes "in_range m"
  shows "cursor (key_down m) =
           (if cursor m < int (length (items_of m)) - 1 then cursor m + 1 else cursor m)"
    and "offset (key_down m) =
           (if cursor m < int (length (items_of m)) - 1 \<and> cursor m + 1 \<ge> offset m + height m - 4
            then cursor m + 1 - height m + 5 else offset m)"
proof -
  from assms have r: "5 \<le> height m" "int (length (items_of m)) + height m \<le> 9223372036854775808"
    "0 \<le> offset m" "offset m \<le> cursor m" "cursor m < int (length (items_of m))"
    by (auto simp: in_range_def)
  have w1: "wrap (int (length (items_of m)) - 1) = int (length (items_of m)) - 1"
    using r by (intro wrap_id) auto
  have w2: "wrap (cursor m + 1) = cursor m + 1" using r by (intro wrap_id) auto
  have w3: "wrap (offset m + height m) = offset m + height m" using r by (intro wrap_id) auto
  have w4: "wrap (offset m + height m - 4) = offset m + height m - 4"
    using r by (intro wrap_id) auto
  have w5: "wrap (cursor m + 1 - height m) = cursor m + 1 - height m"
    using r by (intro wrap_id) auto
  have w6: "wrap (cursor m + 1 - height m + 5) = cursor m + 1 - height m + 5"
    using r by (intro wrap_id) auto
  show "cursor (key_down m) =
           (if cursor m < int (length (items_of m)) - 1 then cursor m + 1 else cursor m)"
    and "offset (key_down m) =
           (if cursor m < int (length (items_of m)) - 1 \<and> cursor m + 1 \<ge> offset m + height m - 4
            then cursor m + 1 - height m + 5 else offset m)"
    using r by (auto simp: key_down_def Let_def wrap_id)
qed

lemma key_pageup_exact:
  assumes "in_range m"
  shows "cursor (key_pageup m) = max 0 (cursor m - (height m - 4))"
    and "offset (key_pageup m) = max 0 (offset m - (height m - 4))"
proof -
  from assms have r: "5 \<le> height m" "int (length (items_of m)) + height m \<le> 9223372036854775808"
    "0 \<le> offset m" "offset m \<le> cursor m" "cursor m < int (length (items_of m))"
    by (auto simp: in_range_def)
  have w1: "wrap (height m - 4) = height m - 4" using r by (intro wrap_id) auto
  have w2: "wrap (offset m - (height m - 4)) = offset m - (height m - 4)"
    using r by (intro wrap_id) auto
  have w3: "wrap (cursor m - (height m - 4)) = cursor m - (height m - 4)"
    using r by (intro wrap_id) auto
  show "cursor (key_pageup m) = max 0 (cursor m - (height m - 4))"
    and "offset (key_pageup m) = max 0 (offset m - (height m - 4))"
    by (auto simp: key_pageup_def Let_def w1 w2 w3)
qed

lemma key_pagedown_exact:
  assumes "in_range m"
  shows "cursor (key_pagedown m) =
           min (cursor m + (height m - 4)) (int (length (items_of m)) - 1)"
    and "offset (key_pagedown m) =
           max 0 (min (offset m + (height m - 4)) (int (length (items_of m)) - (height m - 4)))"
proof -
  from assms have r: "5 \<le> height m" "int (length (items_of m)) + height m \<le> 9223372036854775808"
    "0 \<le> offset m" "offset m \<le> cursor m" "cursor m < int (length (items_of m))"
    by (auto simp: in_range_def)
  have w1: "wrap (height m - 4) = height m - 4" using r by (intro wrap_id) auto
  have w2: "wrap (offset m + (height m - 4)) = offset m + (height m - 4)"
    using r by (intro wrap_id) auto
  have w3: "wrap (int (length (items_of m)) - (height m - 4)) =
      int (length (items_of m)) - (height m - 4)"
    using r by (intro wrap_id) auto
  have w4: "wrap (cursor m + (height m - 4)) = cursor m + (height m - 4)"
    using r by (intro wrap_id) auto
  have w5: "wrap (int (length (items_of m)) - 1) = int (length (items_of m)) - 1"
    using r by (intro wrap_id) auto
  show "cursor (key_pagedown m) =
           min (cursor m + (height m - 4)) (int (length (items_of m)) - 1)"
    and "offset (key_pagedown m) =
           max 0 (min (offset m + (height m - 4)) (int (length (items_of m)) - (height m - 4)))"
    by (auto simp: key_pagedown_def Let_def w1 w2 w3 w4 w5)
qed

lemma key_end_exact:
  assumes "in_range m"
  shows "cursor (key_end m) = int (length (items_of m)) - 1"
    and "offset (key_end m) = max 0 (int (length (items_of m)) - (height m - 4))"
proof -
  from assms have r: "5 \<le> height m" "int (length (items_of m)) + height m \<le> 9223372036854775808"
    "0 \<le> offset m" "offset m \<le> cursor m" "cursor m < int (length (items_of m))"
    by (auto simp: in_range_def)
  have w1: "wrap (height m - 4) = height m - 4" using r by (intro wrap_id) auto
  have w3: "wrap (int (length (items_of m)) - (height m - 4)) =
      int (length (items_of m)) - (height m - 4)"
    using r by (intro wrap_id) auto
  have w5: "wrap (int (length (items_of m)) - 1) = int (length (items_of m)) - 1"
    using r by (intro wrap_id) auto
  show "cursor (key_end m) = int (length (items_of m)) - 1"
    and "offset (key_end m) = max 0 (int (length (items_of m)) - (height m - 4))"
    by (auto simp: key_end_def Let_def w1 w3 w5)
qed

text \<open>The handlers other than switch-view and resize leave everything else alone.\<close>

lemma key_frame:
  "files (key_up m) = files m \<and> folders (key_up m) = folders m \<and>
   viewMode (key_up m) = viewMode m \<and> height (key_up m) = height m"
  "files (key_down m) = files m \<and> folders (key_down m) = folders m \<and>
   viewMode (key_down m) = viewMode m \<and> height (key_down m) = height m"
  "files (key_pageup m) = files m \<and> folders (key_pageup m) = folders m \<and>
   viewMode (key_pageup m) = viewMode m \<and> height (key_pageup m) = height m"
  "files (key_pagedown m) = files m \<and> folders (key_pagedown m) = folders m \<and>
   viewMode (key_pagedown m) = viewMode m \<and> height (key_pagedown m) = height m"
  "files (key_home m) = files m \<and> folders (key_home m) = folders m \<and>
   viewMode (key_home m) = viewMode m \<and> height (key_home m) = height m"
  "files (key_end m) = files m \<and> folders (key_end m) = folders m \<and>
   viewMode (key_end m) = viewMode m \<and> height (key_end m) = height m"
  by (simp_all add: key_up_def key_down_def key_pageup_def key_pagedown_def key_home_def
      key_end_def Let_def)

lemma inv_transfer:
  assumes "files m' = files m" "folders m' = folders m" "viewMode m' = viewMode m"
    "height m' = height m" "nav_inv m"
    and "items_of m \<noteq> [] \<Longrightarrow>
           0 \<le> offset m' \<and> offset m' \<le> cursor m' \<and> cursor m' < int (length (items_of m))"
  shows "nav_inv m'"
  using assms by (auto simp: nav_inv_def fits_def items_of_def)

lemma window_transfer:
  assumes "files m' = files m" "folders m' = folders m" "viewMode m' = viewMode m"
    "height m' = height m"
    and "items_of m \<noteq> [] \<Longrightarrow> cursor m' \<le> offset m' + max 1 (height m - 4) - 1"
  shows "window_inv m'"
  using assms by (auto simp: window_inv_def visibleRows_def items_of_def)

lemma window_inv_D:
  "window_inv m \<Longrightarrow> items_of m \<noteq> [] \<Longrightarrow> cursor m \<le> offset m + max 1 (height m - 4) - 1"
  by (simp add: window_inv_def visibleRows_def)

lemma in_range_D:
  "in_range m \<Longrightarrow> 5 \<le> height m \<and> 0 \<le> offset m \<and> offset m \<le> cursor m \<and>
     cursor m < int (length (items_of m))"
  by (simp add: in_range_def)

lemma nav_inv_up: "nav_inv m \<Longrightarrow> nav_inv (key_up m)"
  using key_frame(1) [of m]
  by (rule_tac inv_transfer [of _ m])
    (auto dest!: nav_inv_in_range simp: key_up_exact, auto simp: in_range_def)

lemma window_inv_up:
  assumes "nav_inv m" "window_inv m"
  shows "window_inv (key_up m)"
proof (rule window_transfer [of _ m])
  assume ne: "items_of m \<noteq> []"
  from nav_inv_in_range [OF assms(1) ne] window_inv_D [OF assms(2) ne]
  show "cursor (key_up m) \<le> offset (key_up m) + max 1 (height m - 4) - 1"
    by (auto simp: key_up_exact in_range_def)
qed (simp_all add: key_frame)

lemma nav_inv_down: "nav_inv m \<Longrightarrow> nav_inv (key_down m)"
  using key_frame(2) [of m]
  by (rule_tac inv_transfer [of _ m])
    (auto dest!: nav_inv_in_range simp: key_down_exact, auto simp: in_range_def)

lemma window_inv_down:
  assumes "nav_inv m" "window_inv m"
  shows "window_inv (key_down m)"
proof (rule window_transfer [of _ m])
  assume ne: "items_of m \<noteq> []"
  from nav_inv_in_range [OF assms(1) ne] window_inv_D [OF assms(2) ne]
  show "cursor (key_down m) \<le> offset (key_down m) + max 1 (height m - 4) - 1"
    by (auto simp: key_down_exact in_range_def)
qed (simp_all add: key_frame)

lemma nav_inv_pageup: "nav_inv m \<Longrightarrow> nav_inv (key_pageup m)"
  using key_frame(3) [of m]
  by (rule_tac inv_transfer [of _ m])
    (auto dest!: nav_inv_in_range simp: key_pageup_exact, auto simp: in_range_def)

lemma window_inv_pageup:
  assumes "nav_inv m" "window_inv m"
  shows "window_inv (key_pageup m)"
proof (rule window_transfer [of _ m])
  assume ne: "items_of m \<noteq> []"
  from nav_inv_in_range [OF assms(1) ne] window_inv_D [OF assms(2) ne]
  show "cursor (key_pageup m) \<le> offset (key_pageup m) + max 1 (height m - 4) - 1"
    by (auto simp: key_pageup_exact in_range_def)
qed (simp_all add: key_frame)

lemma nav_inv_pagedown: "nav_inv m \<Longrightarrow> nav_inv (key_pagedown m)"
  using key_frame(4) [of m]
  by (rule_tac inv_transfer [of _ m])
    (auto dest!: nav_inv_in_range simp: key_pagedown_exact, auto simp: in_range_def)

lemma window_inv_pagedown:
  assumes "nav_inv m" "window_inv m"
  shows "window_inv (key_pagedown m)"
proof (rule window_transfer [of _ m])
  assume ne: "items_of m \<noteq> []"
  from nav_inv_in_range [OF assms(1) ne] window_inv_D [OF assms(2) ne]
  show "cursor (key_pagedown m) \<le> offset (key_pagedown m) + max 1 (height m - 4) - 1"
    by (auto simp: key_pagedown_exact in_range_def)
qed (simp_all add: key_frame)

lemma nav_inv_home: "nav_inv m \<Longrightarrow> nav_inv (key_home m)"
  by (auto simp: nav_inv_def key_home_def items_of_def fits_def)

lemma window_inv_home: "nav_inv m \<Longrightarrow> window_inv (key_home m)"
  by (auto simp: nav_inv_def window_inv_def visibleRows_def key_home_def items_of_def)

lemma nav_inv_end: "nav_inv m \<Longrightarrow> nav_inv (key_end m)"
  using key_frame(6) [of m]
  by (rule_tac inv_transfer [of _ m])
    (auto dest!: nav_inv_in_range simp: key_end_exact, auto simp: in_range_def)

lemma window_inv_end:
  assumes "nav_inv m"
  shows "window_inv (key_end m)"
proof (rule window_transfer [of _ m])
  assume ne: "items_of m \<noteq> []"
  from nav_inv_in_range [OF assms(1) ne]
  show "cursor (key_end m) \<le> offset (key_end m) + max 1 (height m - 4) - 1"
    by (auto simp: key_end_exact in_range_def)
qed (simp_all add: key_frame)

lemma nav_inv_tab: "nav_inv m \<Longrightarrow> nav_inv (key_tab m)"
  by (auto simp: nav_inv_def key_tab_def items_of_def fits_def)

lemma window_inv_tab: "nav_inv m \<Longrightarrow> window_inv (key_tab m)"
  by (auto simp: nav_inv_def window_inv_def visibleRows_def key_tab_def items_of_def)

lemma nav_inv_resize: "nav_inv m \<Longrightarrow> fits m ht \<Longrightarrow> nav_inv (resize rv wd ht m)"
  by (auto simp: nav_inv_def resize_def Let_def items_of_def fits_def)

lemma window_inv_resize:
  "items_of m = [] \<or> cursor m \<le> offset m + max 1 (ht - 4) - 1 \<Longrightarrow>
   window_inv (resize rv wd ht m)"
  by (auto simp: window_inv_def visibleRows_def resize_def Let_def items_of_def)

lemma fits_key [simp]:
  "fits (key_up m) = fits m" "fits (key_down m) = fits m"
  "fits (key_pageup m) = fits m" "fits (key_pagedown m) = fits m"
  "fits (key_home m) = fits m" "fits (key_end m) = fits m"
  "fits (key_tab m) = fits m" "fits (resize rv wd ht m) = fits m"
  by (auto simp: fun_eq_iff fits_def key_up_def key_down_def key_pageup_def key_pagedown_def
      key_home_def key_end_def key_tab_def resize_def Let_def)

lemma nav_step:
  assumes "nav_inv m" "ok_event m ev"
  shows "\<exists>m'. Update rv rm ev m w = Inr (m', NoCmd, w) \<and> nav_inv m' \<and> fits m' = fits m \<and>
           (window_inv m \<and>
            (case ev of WindowSizeMsg wd ht \<Rightarrow>
                 items_of m = [] \<or> cursor m \<le> offset m + max 1 (ht - 4) - 1
             | _ \<Rightarrow> True) \<longrightarrow> window_inv m')"
proof (cases ev)
  case (KeyMsg k)
  with assms(2) have nk: "nav_key (key_of k)" by (simp add: ok_event_def)
  then show ?thesis using assms(1) KeyMsg
    by (cases "key_of k")
      (simp_all add: nav_inv_up nav_inv_down nav_inv_pageup nav_inv_pagedown nav_inv_home
        nav_inv_end nav_inv_tab window_inv_up window_inv_down window_inv_pageup
        window_inv_pagedown window_inv_home window_inv_end window_inv_tab)
next
  case (WindowSizeMsg wd ht)
  with assms show ?thesis by (simp add: ok_event_def nav_inv_resize window_inv_resize)
next
  case OtherMsg
  with assms show ?thesis by (simp add: ok_event_def)
qed

lemma nav_run:
  assumes "nav_inv m" "\<forall>ev\<in>set evs. ok_event m ev"
  shows "\<exists>m'. run rv rm evs m w = Inr (m', NoCmd, w) \<and> nav_inv m' \<and>
           (window_inv m \<and> resizes_keep_cursor rv rm evs m w \<longrightarrow> window_inv m')"
  using assms
proof (induction evs arbitrary: m)
  case Nil
  then show ?case by simp
next
  case (Cons ev evs)
  from Cons.prems have ne: "ok_event m ev" and rest: "\<forall>ev\<in>set evs. ok_event m ev" by auto
  from nav_step [OF Cons.prems(1) ne, of rv rm w] obtain m1 where
    m1: "Update rv rm ev m w = Inr (m1, NoCmd, w)" "nav_inv m1" "fits m1 = fits m"
      "window_inv m \<and>
            (case ev of WindowSizeMsg wd ht \<Rightarrow>
                 items_of m = [] \<or> cursor m \<le> offset m + max 1 (ht - 4) - 1
             | _ \<Rightarrow> True) \<longrightarrow> window_inv m1"
    by blast
  have "ok_event m1 = ok_event m" unfolding ok_event_def m1(3) ..
  with rest have rest1: "\<forall>ev\<in>set evs. ok_event m1 ev" by simp
  from Cons.IH [OF m1(2) rest1] obtain m' where
    m': "run rv rm evs m1 w = Inr (m', NoCmd, w)" "nav_inv m'"
      "window_inv m1 \<and> resizes_keep_cursor rv rm evs m1 w \<longrightarrow> window_inv m'"
    by blast
  have "window_inv m'" if "window_inv m" "resizes_keep_cursor rv rm (ev # evs) m w"
    using that m1(1,4) m'(3) by simp
  with m1(1) m'(1,2) show ?case by simp
qed

lemma nav_inv_initial:
  assumes "int (length fs) + 10 \<le> 2 ^ 63" "int (length ds) + 10 \<le> 2 ^ 63"
  shows "nav_inv (initial rv fs ds base)" "window_inv (initial rv fs ds base)"
  using assms
  by (auto simp: nav_inv_def window_inv_def visibleRows_def initial_def items_of_def fits_def)

lemma ok_event_initial:
  assumes "nav_event ev"
    and "\<forall>ht\<in>set (heights [ev]). int (length fs) + ht \<le> 2 ^ 63 \<and> int (length ds) + ht \<le> 2 ^ 63"
  shows "ok_event (initial rv fs ds base) ev"
  using assms by (cases ev) (auto simp: ok_event_def fits_def initial_def)

lemma heights_mem:
  "ev \<in> set evs \<Longrightarrow> ht \<in> set (heights [ev]) \<Longrightarrow> ht \<in> set (heights evs)"
  by (induction evs rule: heights.induct) auto


section \<open>Claims about the session\<close>

text \<open>
  C1, as stated, fails: the confirm-delete handler never takes an item out of the
  collection. After select, request-delete and confirm-delete on one file, with the removal
  succeeding, the model is back at its initial value and still lists the removed file.
\<close>

theorem C1_deleted_item_stays_listed_counterexample:
  "run main_go (rm_log []) [KeyMsg '' '', KeyMsg ''d'', KeyMsg ''y'']
     (initial main_go [new_item ''/r/a'' 10] [] ''/r'') [] =
   Inr (initial main_go [new_item ''/r/a'' 10] [] ''/r'', NoCmd, [''/r/a'']) \<and>
   run part_000 (rm_log []) [KeyMsg '' '', KeyMsg ''d'', KeyMsg ''y'']
     (initial part_000 [new_item ''/r/a'' 10] [] ''/r'') [] =
   Inr (initial part_000 [new_item ''/r/a'' 10] [] ''/r'', NoCmd, [''/r/a'']) \<and>
   ''/r/a'' \<in> Path ` set (items_of (initial main_go [new_item ''/r/a'' 10] [] ''/r'')) \<and>
   ''/r/a'' \<in> Path ` set (items_of (initial part_000 [new_item ''/r/a'' 10] [] ''/r''))"
  by (simp add: initial_def key_space_def key_y_def items_of_def toggle_files_def
      toggle_at_def new_item_def rm_log_def Let_def)


text \<open>
  C1, amended. For every confirm-delete event in which every selected item of the active
  collection is successfully removed from the filesystem, afterwards each of those items has
  its selected flag reset, so the selection set is empty; the items stay in the active
  collection (same paths, same order), the error field is untouched and the confirmation
  flag is cleared.
\<close>

theorem C1_confirm_delete_clears_flags_keeps_items:
  assumes "confirming m"
    and "remove_all rm (selected_paths (items_of m)) w = (None, w')"
  shows "\<exists>m'. Update rv rm (KeyMsg ''y'') m w = Inr (m', NoCmd, w') \<and>
           m' = (set_items (map unselect (items_of m)) m)\<lparr>confirming := False\<rparr> \<and>
           items_of m' = map unselect (items_of m) \<and>
           filter IsSelected (items_of m') = [] \<and>
           map Path (items_of m') = map Path (items_of m) \<and>
           err m' = err m"
proof -
  let ?m' = "(set_items (map unselect (items_of m)) m)\<lparr>confirming := False\<rparr>"
  from delete_loop_all_ok [OF assms(2)] assms(1)
  have "Update rv rm (KeyMsg ''y'') m w = Inr (?m', NoCmd, w')"
    by (simp add: key_y_def set_items_def Let_def)
  moreover have "items_of ?m' = map unselect (items_of m)"
    by (simp add: items_of_def set_items_def)
  moreover have "filter IsSelected (map unselect (items_of m)) = []"
    by (simp add: filter_empty_conv unselect_def)
  moreover have "map Path (map unselect (items_of m)) = map Path (items_of m)"
    by (simp add: unselect_def)
  moreover have "err ?m' = err m" by (simp add: set_items_def)
  ultimately show ?thesis by simp
qed

theorem C1_confirm_delete_witness:
  "confirming ((initial main_go [sel ''/r/a'' 10, new_item ''/r/b'' 5] [] ''/r'')\<lparr>confirming := True\<rparr>) \<and>
   remove_all (rm_log []) (selected_paths (items_of
      ((initial main_go [sel ''/r/a'' 10, new_item ''/r/b'' 5] [] ''/r'')\<lparr>confirming := True\<rparr>))) [] =
     (None, [''/r/a'']) \<and>
   Update main_go (rm_log []) (KeyMsg ''y'')
      ((initial main_go [sel ''/r/a'' 10, new_item ''/r/b'' 5] [] ''/r'')\<lparr>confirming := True\<rparr>) [] =
     Inr (initial main_go [new_item ''/r/a'' 10, new_item ''/r/b'' 5] [] ''/r'', NoCmd, [''/r/a''])"
proof -
  let ?m = "(initial main_go [sel ''/r/a'' 10, new_item ''/r/b'' 5] [] ''/r'')\<lparr>confirming := True\<rparr>"
  have c: "confirming ?m" by simp
  have r: "remove_all (rm_log []) (selected_paths (items_of ?m)) [] = (None, [''/r/a''])"
    by (simp add: initial_def items_of_def selected_paths_def sel_def new_item_def rm_log_def)
  from C1_confirm_delete_clears_flags_keeps_items [OF c r, of main_go]
  have "Update main_go (rm_log []) (KeyMsg ''y'') ?m [] =
      Inr (initial main_go [new_item ''/r/a'' 10, new_item ''/r/b'' 5] [] ''/r'', NoCmd, [''/r/a''])"
    by (simp add: initial_def items_of_def set_items_def unselect_def sel_def new_item_def)
  with c r show ?thesis by blast
qed


text \<open>
  C5. In a confirm-delete batch, processed in the order of the active collection, if the
  removal of the k-th selected item \<open>x\<close> fails (the selected items before it having been
  removed), the failure becomes the error field and the loop stops there: the world is left
  as that failed attempt left it, the items before \<open>x\<close> have their flags cleared, and \<open>x\<close>
  and every later selected item keep theirs.
\<close>

theorem C5_first_failure_stops_batch:
  assumes "confirming m"
    and "items_of m = pre @ x # post" "IsSelected x"
    and "remove_all rm (selected_paths pre) w = (None, w1)"
    and "rm (Path x) w1 = (Some e, w2)"
  shows "\<exists>m'. Update rv rm (KeyMsg ''y'') m w = Inr (m', NoCmd, w2) \<and>
           m' = (set_items (map unselect pre @ x # post) m)\<lparr>err := Some e, confirming := False\<rparr> \<and>
           items_of m' = map unselect pre @ x # post \<and>
           filter IsSelected (items_of m') = x # filter IsSelected post \<and>
           err m' = Some e"
proof -
  let ?m' = "(set_items (map unselect pre @ x # post) m)\<lparr>err := Some e, confirming := False\<rparr>"
  from delete_loop_first_failure [OF assms(4,3,5)] assms(1,2)
  have "Update rv rm (KeyMsg ''y'') m w = Inr (?m', NoCmd, w2)"
    by (simp add: key_y_def set_items_def Let_def)
  moreover have "items_of ?m' = map unselect pre @ x # post"
    by (simp add: items_of_def set_items_def)
  moreover have "filter IsSelected (map unselect pre @ x # post) = x # filter IsSelected post"
    using assms(3) by (simp add: filter_empty_conv unselect_def)
  moreover have "err ?m' = Some e" by simp
  ultimately show ?thesis by simp
qed

theorem C5_first_failure_witness:
  "confirming ((initial part_000 [sel ''/r/a'' 30, sel ''/r/b'' 20, sel ''/r/c'' 10] [] ''/r'')\<lparr>confirming := True\<rparr>) \<and>
   IsSelected (sel ''/r/b'' 20) \<and>
   remove_all (rm_log [''/r/b'']) (selected_paths [sel ''/r/a'' 30]) [] = (None, [''/r/a'']) \<and>
   rm_log [''/r/b''] (Path (sel ''/r/b'' 20)) [''/r/a''] =
     (Some (PathError ''remove'' ''/r/b''), [''/r/a'', ''/r/b'']) \<and>
   Update part_000 (rm_log [''/r/b'']) (KeyMsg ''y'')
      ((initial part_000 [sel ''/r/a'' 30, sel ''/r/b'' 20, sel ''/r/c'' 10] [] ''/r'')\<lparr>confirming := True\<rparr>) [] =
     Inr ((initial part_000 [new_item ''/r/a'' 30, sel ''/r/b'' 20, sel ''/r/c'' 10] [] ''/r'')
            \<lparr>err := Some (PathError ''remove'' ''/r/b'')\<rparr>, NoCmd, [''/r/a'', ''/r/b''])"
proof -
  let ?m = "(initial part_000 [sel ''/r/a'' 30, sel ''/r/b'' 20, sel ''/r/c'' 10] [] ''/r'')\<lparr>confirming := True\<rparr>"
  have c: "confirming ?m" by simp
  have i: "items_of ?m = [sel ''/r/a'' 30] @ sel ''/r/b'' 20 # [sel ''/r/c'' 10]"
    by (simp add: initial_def items_of_def)
  have s: "IsSelected (sel ''/r/b'' 20)" by (simp add: sel_def)
  have r: "remove_all (rm_log [''/r/b'']) (selected_paths [sel ''/r/a'' 30]) [] = (None, [''/r/a''])"
    by (simp add: selected_paths_def sel_def rm_log_def)
  have f: "rm_log [''/r/b''] (Path (sel ''/r/b'' 20)) [''/r/a''] =
     (Some (PathError ''remove'' ''/r/b''), [''/r/a'', ''/r/b''])"
    by (simp add: sel_def rm_log_def)
  from C5_first_failure_stops_batch [OF c i s r f, of part_000]
  have "Update part_000 (rm_log [''/r/b'']) (KeyMsg ''y'') ?m [] =
     Inr ((initial part_000 [new_item ''/r/a'' 30, sel ''/r/b'' 20, sel ''/r/c'' 10] [] ''/r'')
            \<lparr>err := Some (PathError ''remove'' ''/r/b'')\<rparr>, NoCmd, [''/r/a'', ''/r/b''])"
    by (simp add: initial_def set_items_def unselect_def sel_def new_item_def)
  with c s r f show ?thesis by blast
qed

text \<open>
  C10. Once the error field is set, every run of input and resize messages that follows
  leaves it set, so \<open>View\<close> renders the error-only frame; and the handlers keep running on
  the rest of the state: apart from the error field, the run ends with the same model,
  command and world as the same run started with the error field blank.
\<close>

theorem C10_error_is_sticky_and_handlers_still_run:
  assumes "err m = Some e" "run rv rm evs m w = Inr (m', c, w')"
  shows "(\<exists>e'. err m' = Some e' \<and> View rv' Rel m' = Inr (ErrorFrame e')) \<and>
         forget_err (run rv rm evs (m\<lparr>err := None\<rparr>) w) = Inr (m'\<lparr>err := None\<rparr>, c, w')"
proof -
  from run_keeps_err [OF assms] obtain e' where e': "err m' = Some e'" by auto
  then have "View rv' Rel m' = Inr (ErrorFrame e')" by (simp add: View_def)
  moreover have "forget_err (run rv rm evs (m\<lparr>err := None\<rparr>) w) = forget_err (run rv rm evs m w)"
    by (rule run_err_irrelevant)
  ultimately show ?thesis using e' assms(2) by (simp add: forget_err_def)
qed

theorem C10_error_is_sticky_witness:
  "err after_failure = Some (PathError ''remove'' ''/r/b'') \<and>
   run part_000 (rm_log [''/r/b'']) [KeyMsg ''home'', KeyMsg ''d'', KeyMsg ''y'', WindowSizeMsg 80 24]
     after_failure [''/r/a'', ''/r/b''] =
   Inr (after_failure\<lparr>windowSize := (80, 24), height := 24, width := 80\<rparr>, NoCmd,
        [''/r/a'', ''/r/b'', ''/r/b'']) \<and>
   View part_000 (\<lambda>b t. Inr t)
     (after_failure\<lparr>windowSize := (80, 24), height := 24, width := 80\<rparr>) =
     Inr (ErrorFrame (PathError ''remove'' ''/r/b''))"
proof -
  have e: "err after_failure = Some (PathError ''remove'' ''/r/b'')"
    by (simp add: after_failure_def)
  have r: "run part_000 (rm_log [''/r/b'']) [KeyMsg ''home'', KeyMsg ''d'', KeyMsg ''y'', WindowSizeMsg 80 24]
     after_failure [''/r/a'', ''/r/b''] =
   Inr (after_failure\<lparr>windowSize := (80, 24), height := 24, width := 80\<rparr>, NoCmd,
        [''/r/a'', ''/r/b'', ''/r/b''])"
    by (simp add: after_failure_def initial_def key_home_def key_y_def resize_def items_of_def
        new_item_def sel_def rm_log_def Let_def)
  from C10_error_is_sticky_and_handlers_still_run [OF e r] e
  have "View part_000 (\<lambda>b t. Inr t)
     (after_failure\<lparr>windowSize := (80, 24), height := 24, width := 80\<rparr>) =
     Inr (ErrorFrame (PathError ''remove'' ''/r/b''))"
    by auto
  with e r show ?thesis by blast
qed

text \<open>
  C4, as stated, fails: a resize only stores the new size. Two move-down events on three
  files and then a resize to height 5 leave the cursor at 2 and the offset at 0 with one
  visible row.
\<close>

theorem C4_shrinking_resize_counterexample:
  "\<exists>m'. run main_go (rm_log []) [KeyMsg ''down'', KeyMsg ''down'', WindowSizeMsg 80 5]
           (initial main_go three_files [] ''/r'') [] = Inr (m', NoCmd, []) \<and>
        items_of m' \<noteq> [] \<and> cursor m' = 2 \<and> offset m' = 0 \<and> visibleRows m' = 1 \<and>
        \<not> cursor m' \<le> offset m' + visibleRows m' - 1"
  by (simp add: initial_def three_files_def key_down_def resize_def items_of_def
      visibleRows_def Let_def wrap_id)

text \<open>
  C4, amended. After any sequence of move, page, jump and switch-view events from the
  initial model, interleaved with resize events of any width and of heights of at least 5
  that, like the initial height 10, stay small enough for the length of either collection
  plus the height not to exceed \<open>2^63\<close> (so that no sum leaves the range of \<open>int\<close>), the
  run does not fail and, whenever the active collection is not empty,
  \<open>0 \<le> offset \<le> cursor < len\<close>. If moreover every resize arrives when the cursor fits the
  window of the new height (a resize only stores the new size), then also
  \<open>cursor \<le> offset + visibleRows - 1\<close>.
\<close>

theorem C4_cursor_invariant_for_heights_from_5:
  assumes "\<forall>ev\<in>set evs. nav_event ev"
    and "\<forall>ht\<in>set (10 # heights evs).
           int (length fs) + ht \<le> 2 ^ 63 \<and> int (length ds) + ht \<le> 2 ^ 63"
  shows "\<exists>m'. run rv rm evs (initial rv fs ds base) w = Inr (m', NoCmd, w) \<and>
           (items_of m' \<noteq> [] \<longrightarrow>
              0 \<le> offset m' \<and> offset m' \<le> cursor m' \<and> cursor m' < int (length (items_of m')) \<and>
              (resizes_keep_cursor rv rm evs (initial rv fs ds base) w \<longrightarrow>
                 cursor m' \<le> offset m' + visibleRows m' - 1))"
proof -
  let ?m = "initial rv fs ds base"
  from assms(2) have b: "int (length fs) + 10 \<le> 2 ^ 63" "int (length ds) + 10 \<le> 2 ^ 63"
    by simp_all
  have ok: "\<forall>ev\<in>set evs. ok_event ?m ev"
  proof
    fix ev assume e: "ev \<in> set evs"
    with assms(1) have "nav_event ev" by blast
    moreover have "\<forall>ht\<in>set (heights [ev]).
        int (length fs) + ht \<le> 2 ^ 63 \<and> int (length ds) + ht \<le> 2 ^ 63"
      using assms(2) heights_mem [OF e] by auto
    ultimately show "ok_event ?m ev" by (rule ok_event_initial)
  qed
  from nav_run [OF nav_inv_initial(1) [OF b] ok, where rv = rv and rm = rm and w = w]
  obtain m' where
    m': "run rv rm evs ?m w = Inr (m', NoCmd, w)" "nav_inv m'"
      "window_inv ?m \<and> resizes_keep_cursor rv rm evs ?m w \<longrightarrow> window_inv m'"
    by blast
  from m'(3) have "resizes_keep_cursor rv rm evs ?m w \<longrightarrow> window_inv m'"
    by (simp add: nav_inv_initial(2) [OF b])
  with m'(1,2) show ?thesis by (auto simp: nav_inv_def window_inv_def)
qed

theorem C4_cursor_invariant_witness:
  "nav_event (WindowSizeMsg 80 8) \<and> nav_event (KeyMsg ''down'') \<and>
   nav_event (WindowSizeMsg 80 7) \<and> nav_event (KeyMsg ''end'') \<and>
   nav_event (KeyMsg ''pageup'') \<and> nav_event (KeyMsg ''tab'') \<and> nav_event (KeyMsg ''pagedown'') \<and>
   int (length three_files) + 10 \<le> 2 ^ 63 \<and>
   resizes_keep_cursor part_000 (rm_log [])
     [WindowSizeMsg 80 8, KeyMsg ''down'', KeyMsg ''down'', WindowSizeMsg 80 7, KeyMsg ''end'',
      KeyMsg ''pageup'', KeyMsg ''tab'', KeyMsg ''tab'', KeyMsg ''pagedown'']
     (initial part_000 three_files [] ''/r'') [] \<and>
   (\<exists>m'. run part_000 (rm_log [])
             [WindowSizeMsg 80 8, KeyMsg ''down'', KeyMsg ''down'', WindowSizeMsg 80 7,
              KeyMsg ''end'', KeyMsg ''pageup'', KeyMsg ''tab'', KeyMsg ''tab'', KeyMsg ''pagedown'']
             (initial part_000 three_files [] ''/r'') [] = Inr (m', NoCmd, []) \<and>
          items_of m' = three_files \<and>
          0 \<le> offset m' \<and> offset m' \<le> cursor m' \<and> cursor m' < int (length (items_of m')) \<and>
          cursor m' \<le> offset m' + visibleRows m' - 1)"
proof -
  let ?evs = "[WindowSizeMsg 80 8, KeyMsg ''down'', KeyMsg ''down'', WindowSizeMsg 80 7,
               KeyMsg ''end'', KeyMsg ''pageup'', KeyMsg ''tab'', KeyMsg ''tab'',
               KeyMsg ''pagedown'']"
  let ?m = "initial part_000 three_files [] ''/r''"
  have h: "\<forall>ev\<in>set ?evs. nav_event ev" by simp
  have b: "\<forall>ht\<in>set (10 # heights ?evs).
      int (length three_files) + ht \<le> 2 ^ 63 \<and> int (length ([] :: Items)) + ht \<le> 2 ^ 63"
    by (simp add: three_files_def)
  have k: "resizes_keep_cursor part_000 (rm_log []) ?evs ?m []"
    by (simp add: initial_def three_files_def key_down_def key_end_def key_pageup_def
        key_tab_def key_pagedown_def resize_def items_of_def Let_def wrap_id)
  from C4_cursor_invariant_for_heights_from_5 [OF h b, of part_000 "rm_log []" "''/r''" "[]"]
  obtain m' where m': "run part_000 (rm_log []) ?evs ?m [] = Inr (m', NoCmd, [])"
    and inv: "items_of m' \<noteq> [] \<longrightarrow>
              0 \<le> offset m' \<and> offset m' \<le> cursor m' \<and> cursor m' < int (length (items_of m')) \<and>
              (resizes_keep_cursor part_000 (rm_log []) ?evs ?m [] \<longrightarrow>
                 cursor m' \<le> offset m' + visibleRows m' - 1)"
    by blast
  have "\<exists>m2. run part_000 (rm_log []) ?evs ?m [] = Inr (m2, NoCmd, []) \<and>
      items_of m2 = three_files"
    by (simp add: initial_def three_files_def key_down_def key_end_def key_pageup_def
        key_tab_def key_pagedown_def resize_def items_of_def Let_def wrap_id)
  with m' have i: "items_of m' = three_files" by auto
  then have "items_of m' \<noteq> []" by (simp add: three_files_def)
  with inv k m' i have "\<exists>m'. run part_000 (rm_log []) ?evs ?m [] = Inr (m', NoCmd, []) \<and>
          items_of m' = three_files \<and>
          0 \<le> offset m' \<and> offset m' \<le> cursor m' \<and> cursor m' < int (length (items_of m')) \<and>
          cursor m' \<le> offset m' + visibleRows m' - 1"
    by blast
  moreover have "int (length three_files) + 10 \<le> 2 ^ 63" by (simp add: three_files_def)
  ultimately show ?thesis using k by (simp del: run.simps resizes_keep_cursor.simps)
qed

text \<open>
  C8. The claim: in every reachable state the index of the toggle-select handler is within
  bounds. The code breaks it; this theorem evaluates the code and does not confirm the
  claim. The handlers page by \<open>height - 4\<close> without the clamp \<open>View\<close> applies, so at height 3
  page-down moves the cursor to \<open>-1\<close>, and toggle-select, which tests only
  \<open>cursor < len\<close>, indexes the collection at \<open>-1\<close> (both revisions). In \<open>part_000\<close> the
  test for an empty collection is gone as well: jump-end on an empty collection sets the
  cursor to \<open>-1\<close> and toggle-select panics at the default height.
\<close>

theorem C8_toggle_select_panics:
  "run rv rm [WindowSizeMsg 80 3, KeyMsg ''pagedown'', KeyMsg '' '']
      (initial rv [it] ds base) w = Inl (IndexOutOfRange (- 1) 1) \<and>
   run part_000 rm [KeyMsg ''end'', KeyMsg '' ''] (initial part_000 [] ds base) w =
      Inl (IndexOutOfRange (- 1) 0)"
  by (cases rv)
    (simp_all add: initial_def resize_def key_pagedown_def key_end_def key_space_def
      items_of_def toggle_files_def toggle_at_def Let_def wrap_id)


end
